theory Spec2Isabelle
  imports Complex_Main "HOL-Library.Char_ord" "HOL-Library.List_Lexorder" "HOL-Library.Log_Nat"
begin

section \<open>Machine numbers\<close>

subsection \<open>int64\<close>

text \<open>
  Go's \<^verbatim>\<open>int64\<close> values are modelled as integers in the range \<open>[-2^63, 2^63)\<close>.
  Where the source adds, subtracts or multiplies, the two's complement wrap-around is
  written out with \<open>wrap64\<close>. Go's integer division truncates towards zero (\<open>tdiv\<close>).
\<close>

definition is_int64 :: "int \<Rightarrow> bool" where
  "is_int64 n = (- (2 ^ 63) \<le> n \<and> n < 2 ^ 63)"

definition wrap64 :: "int \<Rightarrow> int" where
  "wrap64 n = (n + 2 ^ 63) mod 2 ^ 64 - 2 ^ 63"

definition tdiv :: "int \<Rightarrow> int \<Rightarrow> int" where
  "tdiv a b = sgn a * sgn b * (\<bar>a\<bar> div \<bar>b\<bar>)"

subsection \<open>float64\<close>

text \<open>
  An IEEE 754 binary64 value is a finite rational \<open>m * 2^e\<close> with \<open>\<bar>m\<bar> < 2^53\<close> and
  \<open>-1074 \<le> e \<le> 971\<close>, an infinity, or NaN. The sign of zero is not modelled: the code
  below never divides by a zero and never prints one.

  Every arithmetic operation of the source rounds its exact result to the nearest
  representable value, ties to the even significand (\<open>f64_round\<close>). The exponent of the
  result is the least \<open>e\<close> of the format with \<open>\<bar>q\<bar> < 2^(e+53)\<close>; a result that rounds
  up to \<open>2^1024\<close> overflows to infinity.
\<close>

datatype float64 = Fin rat | PInf | NInf | NaN

definition round_half_even :: "rat \<Rightarrow> int" where
  "round_half_even x =
     (let n = \<lfloor>x\<rfloor>; r = x - of_int n
      in if r < 1 / 2 then n else if 1 / 2 < r then n + 1 else if even n then n else n + 1)"

definition f64_exponents :: "int list" where
  "f64_exponents = [- 1074..971]"

definition f64_round_abs :: "rat \<Rightarrow> float64" where
  "f64_round_abs q =
     (case find (\<lambda>e. q < 2 powi (e + 53)) f64_exponents of
        None \<Rightarrow> PInf
      | Some e \<Rightarrow>
          (let m = round_half_even (q / 2 powi e)
           in if e = 971 \<and> m = 2 ^ 53 then PInf else Fin (of_int m * 2 powi e)))"

fun f64_neg :: "float64 \<Rightarrow> float64" where
  "f64_neg (Fin q) = Fin (- q)"
| "f64_neg PInf = NInf"
| "f64_neg NInf = PInf"
| "f64_neg NaN = NaN"

definition f64_round :: "rat \<Rightarrow> float64" where
  "f64_round q = (if q < 0 then f64_neg (f64_round_abs (- q)) else f64_round_abs q)"

text \<open>The representable values.\<close>

definition f64_repr :: "rat \<Rightarrow> bool" where
  "f64_repr q = (\<exists>m e. q = of_int m * 2 powi e \<and> \<bar>m\<bar> < 2 ^ 53 \<and> - 1074 \<le> e \<and> e \<le> 971)"

text \<open>The conversion \<^verbatim>\<open>float64(n)\<close> of an integer.\<close>

definition f64_of_int :: "int \<Rightarrow> float64" where
  "f64_of_int n = f64_round (of_int n)"

text \<open>The sign of a value: \<open>-1\<close>, \<open>0\<close> or \<open>1\<close>; \<open>None\<close> for NaN.\<close>

fun f64_sign :: "float64 \<Rightarrow> int option" where
  "f64_sign (Fin q) = Some (if q < 0 then - 1 else if q = 0 then 0 else 1)"
| "f64_sign PInf = Some 1"
| "f64_sign NInf = Some (- 1)"
| "f64_sign NaN = None"

definition f64_inf :: "int \<Rightarrow> float64" where
  "f64_inf s = (if s < 0 then NInf else PInf)"

text \<open>Multiplication and division (\<^verbatim>\<open>x * y\<close>, \<^verbatim>\<open>x / y\<close>).\<close>

fun f64_mul :: "float64 \<Rightarrow> float64 \<Rightarrow> float64" where
  "f64_mul (Fin a) (Fin b) = f64_round (a * b)"
| "f64_mul x y =
     (case (f64_sign x, f64_sign y) of
        (Some s, Some t) \<Rightarrow> if s * t = 0 then NaN else f64_inf (s * t)
      | _ \<Rightarrow> NaN)"

fun f64_div :: "float64 \<Rightarrow> float64 \<Rightarrow> float64" where
  "f64_div (Fin a) (Fin b) =
     (if b = 0 then (if a = 0 then NaN else f64_inf (if a < 0 then - 1 else 1))
      else f64_round (a / b))"
| "f64_div (Fin a) PInf = Fin 0"
| "f64_div (Fin a) NInf = Fin 0"
| "f64_div PInf (Fin b) = f64_inf (if b < 0 then - 1 else 1)"
| "f64_div NInf (Fin b) = f64_inf (if b < 0 then 1 else - 1)"
| "f64_div x y = NaN"

text \<open>Comparisons (\<^verbatim>\<open>x < y\<close>, \<^verbatim>\<open>x <= y\<close>, \<^verbatim>\<open>x == y\<close>): false whenever an operand is NaN.\<close>

fun f64_lt :: "float64 \<Rightarrow> float64 \<Rightarrow> bool" where
  "f64_lt NaN y = False"
| "f64_lt x NaN = False"
| "f64_lt (Fin a) (Fin b) = (a < b)"
| "f64_lt x PInf = (x \<noteq> PInf)"
| "f64_lt NInf y = (y \<noteq> NInf)"
| "f64_lt x y = False"

definition f64_eq :: "float64 \<Rightarrow> float64 \<Rightarrow> bool" where
  "f64_eq x y = (x \<noteq> NaN \<and> x = y)"

definition f64_le :: "float64 \<Rightarrow> float64 \<Rightarrow> bool" where
  "f64_le x y = (f64_lt x y \<or> f64_eq x y)"

text \<open>
  The conversion \<^verbatim>\<open>int64(x)\<close> discards the fraction (truncation towards zero). When the
  truncated value does not fit an int64, or \<open>x\<close> is an infinity or NaN, the Go
  specification leaves the result to the implementation: the model takes that result
  from a parameter \<open>oor\<close> (wrapped into the int64 range), so that every theorem holds for
  every implementation.
\<close>

definition rat_trunc :: "rat \<Rightarrow> int" where
  "rat_trunc q = (if 0 \<le> q then \<lfloor>q\<rfloor> else - \<lfloor>- q\<rfloor>)"

definition f64_to_int64 :: "(float64 \<Rightarrow> int) \<Rightarrow> float64 \<Rightarrow> int" where
  "f64_to_int64 oor x =
     (case x of
        Fin q \<Rightarrow> if is_int64 (rat_trunc q) then rat_trunc q else wrap64 (oor x)
      | _ \<Rightarrow> wrap64 (oor x))"

section \<open>Formatting\<close>

text \<open>The verbs of \<^verbatim>\<open>fmt.Sprintf\<close> the source uses: \<^verbatim>\<open>%d\<close> and \<^verbatim>\<open>%.1f\<close>.\<close>

definition digit_char :: "nat \<Rightarrow> char" where
  "digit_char d = ''0123456789'' ! d"

fun decimal :: "nat \<Rightarrow> string" where
  "decimal n = (if n < 10 then [digit_char n] else decimal (n div 10) @ [digit_char (n mod 10)])"

declare decimal.simps [simp del]

definition fmt_d :: "int \<Rightarrow> string" where
  "fmt_d i = (if i < 0 then ''-'' @ decimal (nat (- i)) else decimal (nat i))"

text \<open>
  \<^verbatim>\<open>%.1f\<close> prints the exact value of the float64 rounded to one digit after the point,
  ties to even.
\<close>

definition fmt_f1_abs :: "rat \<Rightarrow> string" where
  "fmt_f1_abs q =
     (let r = nat (round_half_even (q * 10))
      in decimal (r div 10) @ ''.'' @ [digit_char (r mod 10)])"

fun fmt_f1 :: "float64 \<Rightarrow> string" where
  "fmt_f1 (Fin q) = (if q < 0 then ''-'' @ fmt_f1_abs (- q) else fmt_f1_abs q)"
| "fmt_f1 PInf = ''+Inf''"
| "fmt_f1 NInf = ''-Inf''"
| "fmt_f1 NaN = ''NaN''"

section \<open>Strings\<close>

text \<open>
  A Go string is a sequence of bytes: a \<open>string\<close> here, one \<open>char\<close> per byte. The functions
  of the packages \<^verbatim>\<open>strings\<close>, \<^verbatim>\<open>unicode\<close>, \<^verbatim>\<open>regexp\<close> and \<^verbatim>\<open>strconv\<close> that the source calls
  are modelled by what their documentation says of them.
\<close>

definition isDigit :: "char \<Rightarrow> bool" where
  "isDigit c = (CHR ''0'' \<le> c \<and> c \<le> CHR ''9'')"

definition isLower :: "char \<Rightarrow> bool" where
  "isLower c = (CHR ''a'' \<le> c \<and> c \<le> CHR ''z'')"

definition isUpper :: "char \<Rightarrow> bool" where
  "isUpper c = (CHR ''A'' \<le> c \<and> c \<le> CHR ''Z'')"

definition isLetter :: "char \<Rightarrow> bool" where
  "isLetter c = (isLower c \<or> isUpper c)"

text \<open>
  \<^verbatim>\<open>unicode.IsSpace\<close>: the white space code points, each in its UTF-8 encoding (the six
  ASCII ones, U+0085, U+00A0, U+1680, U+2000 to U+200A, U+2028, U+2029, U+202F, U+205F,
  U+3000).
\<close>

definition space_runes :: "string list" where
  "space_runes =
     [[CHR 0x09], [CHR 0x0A], [CHR 0x0B], [CHR 0x0C], [CHR 0x0D], [CHR 0x20],
      [CHR 0xC2, CHR 0x85], [CHR 0xC2, CHR 0xA0], [CHR 0xE1, CHR 0x9A, CHR 0x80],
      [CHR 0xE2, CHR 0x80, CHR 0x80], [CHR 0xE2, CHR 0x80, CHR 0x81],
      [CHR 0xE2, CHR 0x80, CHR 0x82], [CHR 0xE2, CHR 0x80, CHR 0x83],
      [CHR 0xE2, CHR 0x80, CHR 0x84], [CHR 0xE2, CHR 0x80, CHR 0x85],
      [CHR 0xE2, CHR 0x80, CHR 0x86], [CHR 0xE2, CHR 0x80, CHR 0x87],
      [CHR 0xE2, CHR 0x80, CHR 0x88], [CHR 0xE2, CHR 0x80, CHR 0x89],
      [CHR 0xE2, CHR 0x80, CHR 0x8A], [CHR 0xE2, CHR 0x80, CHR 0xA8],
      [CHR 0xE2, CHR 0x80, CHR 0xA9], [CHR 0xE2, CHR 0x80, CHR 0xAF],
      [CHR 0xE2, CHR 0x81, CHR 0x9F], [CHR 0xE3, CHR 0x80, CHR 0x80]]"

definition HasPrefix :: "string \<Rightarrow> string \<Rightarrow> bool" where
  "HasPrefix s p = (take (length p) s = p)"

definition HasSuffix :: "string \<Rightarrow> string \<Rightarrow> bool" where
  "HasSuffix s x = (length x \<le> length s \<and> drop (length s - length x) s = x)"

definition TrimSuffix :: "string \<Rightarrow> string \<Rightarrow> string" where
  "TrimSuffix s x = (if HasSuffix s x then take (length s - length x) s else s)"

text \<open>\<^verbatim>\<open>strings.TrimSpace\<close> removes the white space runes at both ends.\<close>

function TrimLeftSpace :: "string \<Rightarrow> string" where
  "TrimLeftSpace s =
     (case find (HasPrefix s) space_runes of
        None \<Rightarrow> s
      | Some w \<Rightarrow> if w = [] then s else TrimLeftSpace (drop (length w) s))"
  by pat_completeness auto
termination
proof (relation "measure length")
  show "wf (measure length)" by simp
next
  fix s :: string and w :: string
  assume w: "find (HasPrefix s) space_runes = Some w" "w \<noteq> []"
  then have "take (length w) s = w"
    by (auto simp: find_Some_iff HasPrefix_def)
  then have "length (take (length w) s) = length w"
    by simp
  then have "length w \<le> length s"
    by simp
  with w show "(drop (length w) s, s) \<in> measure length"
    by (cases w) auto
qed

declare TrimLeftSpace.simps [simp del]

function TrimRightSpace :: "string \<Rightarrow> string" where
  "TrimRightSpace s =
     (case find (HasSuffix s) space_runes of
        None \<Rightarrow> s
      | Some w \<Rightarrow> if w = [] then s else TrimRightSpace (take (length s - length w) s))"
  by pat_completeness auto
termination
proof (relation "measure length")
  show "wf (measure length)" by simp
next
  fix s :: string and w :: string
  assume w: "find (HasSuffix s) space_runes = Some w" "w \<noteq> []"
  then have "length w \<le> length s"
    by (auto simp: find_Some_iff HasSuffix_def)
  with w show "(take (length s - length w) s, s) \<in> measure length"
    by (cases w) auto
qed

declare TrimRightSpace.simps [simp del]

definition TrimSpace :: "string \<Rightarrow> string" where
  "TrimSpace s = TrimRightSpace (TrimLeftSpace s)"

text \<open>
  \<^verbatim>\<open>strings.ToUpper\<close>, on the ASCII letters: the source applies it to the unit the
  regular expression matched, which holds nothing else.
\<close>

definition toUpperChar :: "char \<Rightarrow> char" where
  "toUpperChar c = (if isLower c then char_of (of_char c - (32 :: nat)) else c)"

definition ToUpper :: "string \<Rightarrow> string" where
  "ToUpper s = map toUpperChar s"

text \<open>
  The regular expression \<^verbatim>\<open>^([0-9]+(?:\.[0-9]+)?)\s*([A-Za-z]*)$\<close> of \<open>ParseSize\<close>. Its
  character classes are pairwise disjoint, so a string has at most one match and a scan
  from the left finds it: the digits, a point followed by digits if there is one, the
  white space of \<^verbatim>\<open>\s\<close> (tab, line feed, form feed, carriage return, space), the
  letters, and then the end of the string. The result is the two groups.
\<close>

definition isReSpace :: "char \<Rightarrow> bool" where
  "isReSpace c = (c \<in> set [CHR 0x09, CHR 0x0A, CHR 0x0C, CHR 0x0D, CHR 0x20])"

definition sizeRegexp :: "string \<Rightarrow> (string \<times> string) option" where
  "sizeRegexp s =
     (let ds = takeWhile isDigit s; r1 = dropWhile isDigit s
      in if ds = [] then None
         else
           (let (num, r2) =
                  (case r1 of
                     [] \<Rightarrow> (ds, r1)
                   | c # r \<Rightarrow>
                       if c = CHR ''.'' \<and> takeWhile isDigit r \<noteq> []
                       then (ds @ ''.'' @ takeWhile isDigit r, dropWhile isDigit r)
                       else (ds, r1));
                r3 = dropWhile isReSpace r2
            in if dropWhile isLetter r3 = [] then Some (num, takeWhile isLetter r3)
               else None))"

text \<open>
  \<^verbatim>\<open>strconv.ParseFloat(s, 64)\<close> returns the float64 nearest to the decimal number \<open>s\<close>
  (ties to even), and an error when \<open>s\<close> is not a number or the value overflows. The
  model covers the inputs written with a sign, digits and a point. The other forms
  ParseFloat reads (exponents, hexadecimal numbers, infinities and NaN, digits
  separated by underscores) all contain a letter or an underscore: on such a string the
  result is taken from the parameter \<open>other\<close>, so that every theorem holds whatever
  ParseFloat does there. \<open>None\<close> is the error.
\<close>

definition digit_val :: "char \<Rightarrow> nat" where
  "digit_val c = of_char c - 48"

definition dec_val :: "string \<Rightarrow> nat" where
  "dec_val ds = foldl (\<lambda>a c. 10 * a + digit_val c) 0 ds"

definition dec_number :: "string \<Rightarrow> string \<Rightarrow> rat" where
  "dec_number ip fp = of_nat (dec_val ip) + of_nat (dec_val fp) / 10 ^ length fp"

text \<open>
  A decimal numeral with the integer digits \<open>ip\<close> and the fraction digits \<open>fp\<close> is written
  \<open>ip @ frac_part fp\<close> and denotes \<open>dec_number ip fp\<close>. The characters of a signed one are the
  \<open>isNumberChar\<close>.
\<close>

definition frac_part :: "string \<Rightarrow> string" where
  "frac_part fs = (if fs = [] then [] else ''.'' @ fs)"

definition isNumberChar :: "char \<Rightarrow> bool" where
  "isNumberChar c = (isDigit c \<or> c = CHR ''.'' \<or> c = CHR ''-'' \<or> c = CHR ''+'')"

definition parse_decimal :: "string \<Rightarrow> float64 option" where
  "parse_decimal s =
     (let neg = (s \<noteq> [] \<and> hd s = CHR ''-'');
          body = (if s \<noteq> [] \<and> (hd s = CHR ''-'' \<or> hd s = CHR ''+'') then tl s else s);
          ip = takeWhile isDigit body;
          r = dropWhile isDigit body;
          hasdot = (r \<noteq> [] \<and> hd r = CHR ''.'');
          fp = (if hasdot then takeWhile isDigit (tl r) else []);
          rest = (if hasdot then dropWhile isDigit (tl r) else r)
      in if rest \<noteq> [] \<or> ip @ fp = [] then None
         else
           (case f64_round_abs (dec_number ip fp) of
              Fin q \<Rightarrow> Some (Fin (if neg then - q else q))
            | _ \<Rightarrow> None))"

definition ParseFloat :: "(string \<Rightarrow> float64 option) \<Rightarrow> string \<Rightarrow> float64 option" where
  "ParseFloat other s =
     (if \<exists>c \<in> set s. isLetter c \<or> c = CHR ''_'' then other s else parse_decimal s)"

text \<open>
  What the model leaves to the implementation, as one parameter of the functions below.
\<close>

record platform =
  convOutOfRange :: "float64 \<Rightarrow> int"
  parseFloatOther :: "string \<Rightarrow> float64 option"

text \<open>
  One such implementation, for the examples: conversions out of range yield the least
  int64 and ParseFloat rejects every string of the forms the model leaves open.
\<close>

definition example_platform :: platform where
  "example_platform = \<lparr>convOutOfRange = (\<lambda>x. - (2 ^ 63)), parseFloatOther = (\<lambda>s. None)\<rparr>"

text \<open>The bytes \<open>0x21\<close> to \<open>0x7E\<close>: the ASCII characters that print and are no space.\<close>

definition printable :: "char \<Rightarrow> bool" where
  "printable c = (CHR 0x21 \<le> c \<and> c \<le> CHR 0x7E)"

section \<open>Package config: sizes\<close>

text \<open>The errors of the package, one constructor for each message format.\<close>

datatype error =
    EmptySizeString
  | InvalidPercentage string
  | PercentageOutOfRange string
  | InvalidSizeFormat string
  | InvalidNumber string
  | UnknownUnit string

record SizeSpec =
  Bytes :: int
  Percent :: float64

definition IsPercent :: "SizeSpec \<Rightarrow> bool" where
  "IsPercent s = f64_lt (Fin 0) (Percent s)"

definition IsZero :: "SizeSpec \<Rightarrow> bool" where
  "IsZero s = (Bytes s = 0 \<and> f64_eq (Percent s) (Fin 0))"

subsection \<open>ParseSize and ParseSizeSpec\<close>

definition unit_multiplier :: "string \<Rightarrow> float64 option" where
  "unit_multiplier unit =
     (if unit = [] \<or> unit = ''B'' then Some (Fin 1)
      else if unit = ''KIB'' then Some (Fin 1024)
      else if unit = ''MIB'' then Some (Fin (1024 * 1024))
      else if unit = ''GIB'' then Some (Fin (1024 * 1024 * 1024))
      else if unit = ''TIB'' then Some (Fin (1024 * 1024 * 1024 * 1024))
      else if unit = ''KB'' then Some (Fin 1000)
      else if unit = ''MB'' then Some (Fin (1000 * 1000))
      else if unit = ''GB'' then Some (Fin (1000 * 1000 * 1000))
      else if unit = ''TB'' then Some (Fin (1000 * 1000 * 1000 * 1000))
      else if unit = ''K'' then Some (Fin 1024)
      else if unit = ''M'' then Some (Fin (1024 * 1024))
      else if unit = ''G'' then Some (Fin (1024 * 1024 * 1024))
      else if unit = ''T'' then Some (Fin (1024 * 1024 * 1024 * 1024))
      else None)"

definition ParseSize :: "platform \<Rightarrow> string \<Rightarrow> error + int" where
  "ParseSize pl s0 =
     (let s = TrimSpace s0
      in if s = [] then Inl EmptySizeString
         else
           (case sizeRegexp s of
              None \<Rightarrow> Inl (InvalidSizeFormat s)
            | Some (numStr, u) \<Rightarrow>
                (let unit = ToUpper u
                 in case ParseFloat (parseFloatOther pl) numStr of
                      None \<Rightarrow> Inl (InvalidNumber numStr)
                    | Some num \<Rightarrow>
                        (case unit_multiplier unit of
                           None \<Rightarrow> Inl (UnknownUnit unit)
                         | Some multiplier \<Rightarrow>
                             Inr (f64_to_int64 (convOutOfRange pl) (f64_mul num multiplier))))))"

definition ParseSizeSpec :: "platform \<Rightarrow> string \<Rightarrow> error + SizeSpec" where
  "ParseSizeSpec pl s0 =
     (let s = TrimSpace s0
      in if s = [] then Inl EmptySizeString
         else if HasSuffix s ''%''
         then
           (let numStr = TrimSpace (TrimSuffix s ''%'')
            in case ParseFloat (parseFloatOther pl) numStr of
                 None \<Rightarrow> Inl (InvalidPercentage s)
               | Some pct \<Rightarrow>
                   if f64_le pct (Fin 0) \<or> f64_lt (Fin 100) pct
                   then Inl (PercentageOutOfRange s)
                   else Inr \<lparr>Bytes = 0, Percent = pct\<rparr>)
         else
           (case ParseSize pl s of
              Inl err \<Rightarrow> Inl err
            | Inr bytes \<Rightarrow> Inr \<lparr>Bytes = bytes, Percent = Fin 0\<rparr>))"

text \<open>
  The unit table of the specification (section 4.1), on the unit in upper case: the SI
  units are powers of 1000, the IEC units and the bare letters powers of 1024.
\<close>

definition unit_factor :: "string \<Rightarrow> rat option" where
  "unit_factor unit =
     (if unit \<in> {[], ''B''} then Some 1
      else if unit \<in> {''K'', ''KIB''} then Some (1024 ^ 1)
      else if unit \<in> {''M'', ''MIB''} then Some (1024 ^ 2)
      else if unit \<in> {''G'', ''GIB''} then Some (1024 ^ 3)
      else if unit \<in> {''T'', ''TIB''} then Some (1024 ^ 4)
      else if unit = ''KB'' then Some (1000 ^ 1)
      else if unit = ''MB'' then Some (1000 ^ 2)
      else if unit = ''GB'' then Some (1000 ^ 3)
      else if unit = ''TB'' then Some (1000 ^ 4)
      else None)"

subsection \<open>FormatSize\<close>

text \<open>
  \<^verbatim>\<open>for n := bytes / unit; n >= unit; n /= unit { div *= unit; exp++ }\<close>
  The loop returns \<open>(div, exp)\<close>.
\<close>

function FormatSize_loop :: "int \<Rightarrow> int \<Rightarrow> nat \<Rightarrow> int \<times> nat" where
  "FormatSize_loop n d e =
     (if 1024 \<le> n then FormatSize_loop (tdiv n 1024) (wrap64 (d * 1024)) (e + 1) else (d, e))"
  by pat_completeness auto
termination
  by (relation "measure (\<lambda>(n, d, e). nat n)") (auto simp: tdiv_def)

declare FormatSize_loop.simps [simp del]

text \<open>
  Indexing the string \<^verbatim>\<open>"KMGTPE"\<close> panics when the index is 6 or more: the model returns
  \<open>None\<close> for the panic.
\<close>

definition FormatSize :: "int \<Rightarrow> string option" where
  "FormatSize bytes =
     (if bytes < 1024 then Some (fmt_d bytes @ '' B'')
      else
        (let (d, e) = FormatSize_loop (tdiv bytes 1024) 1024 0
         in if e < length ''KMGTPE''
            then Some (fmt_f1 (f64_div (f64_of_int bytes) (f64_of_int d)) @ '' '' @
                       [''KMGTPE'' ! e] @ ''iB'')
            else None))"

section \<open>Package mirror: the cache manager\<close>

subsection \<open>formatSize\<close>

function formatSize_loop :: "int \<Rightarrow> int \<Rightarrow> nat \<Rightarrow> int \<times> nat" where
  "formatSize_loop n d e =
     (if 1024 \<le> n then formatSize_loop (tdiv n 1024) (wrap64 (d * 1024)) (e + 1) else (d, e))"
  by pat_completeness auto
termination
  by (relation "measure (\<lambda>(n, d, e). nat n)") (auto simp: tdiv_def)

declare formatSize_loop.simps [simp del]

definition formatSize :: "int \<Rightarrow> string option" where
  "formatSize bytes =
     (if bytes < 1024 then Some (fmt_d bytes @ '' B'')
      else
        (let (d, e) = formatSize_loop (tdiv bytes 1024) 1024 0
         in if e < length ''KMGTPE''
            then Some (fmt_f1 (f64_div (f64_of_int bytes) (f64_of_int d)) @ '' '' @
                       [''KMGTPE'' ! e] @ ''iB'')
            else None))"

subsection \<open>Paths\<close>

text \<open>
  The functions of \<^verbatim>\<open>path/filepath\<close> the package calls, on Unix paths, by what their
  documentation says. \<open>filepath_Clean\<close> splits the path at the slashes, drops the empty
  elements and the \<open>.\<close> elements, cancels \<open>..\<close> against the element before it (and drops it
  at the start of a rooted path), and joins what is left; the empty result is \<open>.\<close>.
\<close>

fun splitPath :: "string \<Rightarrow> string list" where
  "splitPath [] = [[]]"
| "splitPath (c # cs) =
     (if c = CHR ''/'' then [] # splitPath cs
      else (case splitPath cs of [] \<Rightarrow> [[c]] | x # xs \<Rightarrow> (c # x) # xs))"

fun cleanComps :: "bool \<Rightarrow> string list \<Rightarrow> string list \<Rightarrow> string list" where
  "cleanComps rooted acc [] = rev acc"
| "cleanComps rooted acc (c # cs) =
     (if c = [] \<or> c = ''.'' then cleanComps rooted acc cs
      else if c = ''..'' then
        (case acc of
           [] \<Rightarrow> if rooted then cleanComps rooted acc cs else cleanComps rooted (c # acc) cs
         | a # as \<Rightarrow>
             if a = ''..'' then cleanComps rooted (c # acc) cs else cleanComps rooted as cs)
      else cleanComps rooted (c # acc) cs)"

fun joinComps :: "string list \<Rightarrow> string" where
  "joinComps [] = []"
| "joinComps [c] = c"
| "joinComps (c # cs) = c @ ''/'' @ joinComps cs"

definition isRooted :: "string \<Rightarrow> bool" where
  "isRooted p = (p \<noteq> [] \<and> hd p = CHR ''/'')"

definition filepath_Clean :: "string \<Rightarrow> string" where
  "filepath_Clean p =
     (let cs = cleanComps (isRooted p) [] (splitPath p)
      in if isRooted p then ''/'' @ joinComps cs
         else if cs = [] then ''.''
         else joinComps cs)"

definition filepath_Join :: "string \<Rightarrow> string \<Rightarrow> string" where
  "filepath_Join a b =
     (if a = [] then (if b = [] then [] else filepath_Clean b)
      else if b = [] then filepath_Clean a
      else filepath_Clean (a @ ''/'' @ b))"

text \<open>\<open>filepath_Dir\<close>: all but the last element, cleaned.\<close>

definition dirPrefix :: "string \<Rightarrow> string" where
  "dirPrefix p = rev (dropWhile (\<lambda>c. c \<noteq> CHR ''/'') (rev p))"

definition filepath_Dir :: "string \<Rightarrow> string" where
  "filepath_Dir p = filepath_Clean (dirPrefix p)"

text \<open>\<open>filepath_Ext\<close>: the suffix from the last point of the last element.\<close>

definition filepath_Ext :: "string \<Rightarrow> string" where
  "filepath_Ext p =
     (let elem = takeWhile (\<lambda>c. c \<noteq> CHR ''/'') (rev p)
      in if CHR ''.'' \<in> set elem then CHR ''.'' # rev (takeWhile (\<lambda>c. c \<noteq> CHR ''.'') elem)
         else [])"

text \<open>
  \<open>filepath_Rel\<close>: the target relative to the base, both cleaned: the common elements are
  dropped, each element left of the base becomes \<open>..\<close>. \<open>None\<close> is the error (one path
  rooted and the other not, or a base that starts with \<open>..\<close> elements the target lacks).
\<close>

fun dropCommon :: "string list \<Rightarrow> string list \<Rightarrow> string list \<times> string list" where
  "dropCommon (a # as) (b # bs) = (if a = b then dropCommon as bs else (a # as, b # bs))"
| "dropCommon as bs = (as, bs)"

definition filepath_Rel :: "string \<Rightarrow> string \<Rightarrow> string option" where
  "filepath_Rel base targ =
     (let bc = cleanComps (isRooted base) [] (splitPath base);
          tc = cleanComps (isRooted targ) [] (splitPath targ);
          (b', t') = dropCommon bc tc
      in if isRooted base \<noteq> isRooted targ \<or> ''..'' \<in> set b' then None
         else if b' = [] \<and> t' = [] then Some ''.''
         else Some (joinComps (map (\<lambda>_. ''..'') b' @ t')))"

subsection \<open>The file system\<close>

text \<open>
  The file system is a tree of directories and files, each with its modification time
  (in nanoseconds) and a file with its size. A path is resolved from the root of the tree
  (the working directory is taken to be the root). The environment can refuse a
  directory: the paths in \<open>denied\<close> fail to be read or removed. \<open>statfs\<close> is the result of
  the statfs call on the mirror root (the available blocks and the block size), \<open>None\<close>
  when the call fails.
\<close>

datatype node =
    FileNode (fsize: int) (modTime: int)
  | DirNode (modTime: int) (entries: "(string \<times> node) list")

record world =
  tree :: node
  denied :: "string list list"
  statfs :: "(nat \<times> int) option"

definition resolve :: "string \<Rightarrow> string list" where
  "resolve p = cleanComps True [] (splitPath p)"

fun lookup :: "node \<Rightarrow> string list \<Rightarrow> node option" where
  "lookup n [] = Some n"
| "lookup (FileNode s t) (c # cs) = None"
| "lookup (DirNode t es) (c # cs) =
     (case map_of es c of None \<Rightarrow> None | Some n \<Rightarrow> lookup n cs)"

fun remove_at :: "node \<Rightarrow> string list \<Rightarrow> node" where
  "remove_at n [] = n"
| "remove_at (FileNode s t) (c # cs) = FileNode s t"
| "remove_at (DirNode t es) [c] = DirNode t (filter (\<lambda>e. fst e \<noteq> c) es)"
| "remove_at (DirNode t es) (c # cs) =
     DirNode t (map (\<lambda>e. if fst e = c then (fst e, remove_at (snd e) cs) else e) es)"

definition isDir :: "node \<Rightarrow> bool" where
  "isDir n = (case n of DirNode t es \<Rightarrow> True | FileNode s t \<Rightarrow> False)"

definition os_Stat :: "world \<Rightarrow> string \<Rightarrow> node option" where
  "os_Stat w p = (if p = [] then None else lookup (tree w) (resolve p))"

text \<open>\<open>os_ReadDir\<close> returns the entries of a directory sorted by name.\<close>

definition os_ReadDir :: "world \<Rightarrow> string \<Rightarrow> (string \<times> node) list option" where
  "os_ReadDir w p =
     (case os_Stat w p of
        Some (DirNode t es) \<Rightarrow> if resolve p \<in> set (denied w) then None else Some (sort_key fst es)
      | _ \<Rightarrow> None)"

text \<open>\<open>os_Remove\<close> removes a file or an empty directory; \<open>None\<close> is the error.\<close>

definition os_Remove :: "world \<Rightarrow> string \<Rightarrow> world option" where
  "os_Remove w p =
     (case os_Stat w p of
        None \<Rightarrow> None
      | Some n \<Rightarrow>
          if resolve p = [] \<or> resolve p \<in> set (denied w) \<or> (isDir n \<and> entries n \<noteq> [])
          then None
          else Some (w\<lparr>tree := remove_at (tree w) (resolve p)\<rparr>))"

text \<open>
  \<open>os_RemoveAll\<close> removes a path and all below it, and succeeds when the path does not
  exist. A refused removal removes nothing.
\<close>

definition os_RemoveAll :: "world \<Rightarrow> string \<Rightarrow> world option" where
  "os_RemoveAll w p =
     (if p = [] then Some w
      else if resolve p = [] \<or> resolve p \<in> set (denied w) then None
      else Some (w\<lparr>tree := remove_at (tree w) (resolve p)\<rparr>))"

text \<open>
  \<open>filepath.WalkDir\<close> calls the function on the root and then, in the order of the names,
  on what each directory holds. The function returns its new state and whether to skip
  the directory it was called on (the callbacks of this package skip directories only).
  On a directory that cannot be read the walk calls the function again with the error:
  both callbacks of the package return at once then, so the state stays.
\<close>

function walkDir ::
  "world \<Rightarrow> (string \<Rightarrow> node \<Rightarrow> 's \<Rightarrow> 's \<times> bool) \<Rightarrow> string \<Rightarrow> node \<Rightarrow> 's \<Rightarrow> 's" where
  "walkDir w fn p (FileNode s t) st = fst (fn p (FileNode s t) st)"
| "walkDir w fn p (DirNode t es) st =
     (case fn p (DirNode t es) st of
        (st', skip) \<Rightarrow>
          if skip \<or> resolve p \<in> set (denied w) then st'
          else fold (\<lambda>e. walkDir w fn (filepath_Join p (fst e)) (snd e)) (sort_key fst es) st')"
  by pat_completeness auto
termination
proof (relation "measure (\<lambda>(w, fn, p, n, st). size n)")
  show "wf (measure (\<lambda>(w, fn, p, n, st). size n))"
    by simp
next
  fix w :: world and fn :: "string \<Rightarrow> node \<Rightarrow> 's \<Rightarrow> 's \<times> bool" and p :: string and t :: int
    and es :: "(string \<times> node) list" and st st' :: 's and e :: "string \<times> node"
  assume "e \<in> set (sort_key fst es)"
  then have "e \<in> set es"
    by simp
  then have "size (snd e) < size (DirNode t es)"
    by (induction es) (auto simp: less_Suc_eq_le)
  then show "((w, fn, filepath_Join p (fst e), snd e, st'), (w, fn, p, DirNode t es, st))
      \<in> measure (\<lambda>(w, fn, p, n, st). size n)"
    by simp
qed

definition WalkDir :: "world \<Rightarrow> string \<Rightarrow> (string \<Rightarrow> node \<Rightarrow> 's \<Rightarrow> 's \<times> bool) \<Rightarrow> 's \<Rightarrow> 's" where
  "WalkDir w start fn st =
     (case os_Stat w start of None \<Rightarrow> st | Some n \<Rightarrow> walkDir w fn start n st)"

subsection \<open>The cache\<close>

definition DefaultMaxSizePercent :: float64 where
  "DefaultMaxSizePercent = Fin 80"

definition MinFreeSpace :: int where
  "MinFreeSpace = 1024 * 1024 * 1024"

text \<open>
  \<open>accessTimeMap\<close> is the field \<^verbatim>\<open>accessTime\<close> of the cache (the map from the key of a
  repository to its access time); a time is a number of nanoseconds, and \<open>zeroTime\<close> is the
  zero value of \<^verbatim>\<open>time.Time\<close>.
\<close>

record Cache =
  root :: string
  maxSize :: SizeSpec
  accessTimeMap :: "string \<Rightarrow> int option"

record repoInfo =
  key :: string
  path :: string
  accessTime :: int

definition zeroTime :: int where
  "zeroTime = - 62135596800000000000"

definition Touch :: "Cache \<Rightarrow> string \<Rightarrow> int \<Rightarrow> Cache" where
  "Touch c k now = c\<lparr>accessTimeMap := (accessTimeMap c)(k \<mapsto> now)\<rparr>"

text \<open>
  \<open>getDirSize\<close>: the callback adds the size of everything that is no directory, with the
  wrap-around of int64, and returns no error on any path, so neither does the walk: the
  result is always \<open>Some\<close>.
\<close>

definition getDirSize :: "world \<Rightarrow> string \<Rightarrow> int option" where
  "getDirSize w p =
     Some (WalkDir w p
       (\<lambda>_ d size. (if \<not> isDir d then wrap64 (size + fsize d) else size, False)) 0)"

text \<open>
  \<open>pathToKey\<close>: slicing the last four bytes off panics when the relative path is
  shorter; \<open>None\<close> is the panic.
\<close>

definition pathToKey :: "Cache \<Rightarrow> string \<Rightarrow> string option" where
  "pathToKey c p =
     (case filepath_Rel (root c) p of
        None \<Rightarrow> Some p
      | Some rel \<Rightarrow> if length rel < 4 then None else Some (take (length rel - 4) rel))"

definition getAccessTime :: "Cache \<Rightarrow> world \<Rightarrow> string \<Rightarrow> string \<Rightarrow> int" where
  "getAccessTime c w k p =
     (case accessTimeMap c k of
        Some t \<Rightarrow> t
      | None \<Rightarrow>
          (case os_Stat w (filepath_Join p ''HEAD'') of
             Some info \<Rightarrow> modTime info
           | None \<Rightarrow>
               (case os_Stat w p of
                  Some info \<Rightarrow> modTime info
                | None \<Rightarrow> zeroTime)))"

text \<open>
  \<open>listReposWithAccessTime\<close>: the state of the walk is the list of repositories so far,
  or \<open>None\<close> once \<open>pathToKey\<close> has panicked.
\<close>

definition listReposWithAccessTime :: "Cache \<Rightarrow> world \<Rightarrow> repoInfo list option" where
  "listReposWithAccessTime c w =
     WalkDir w (root c)
       (\<lambda>p d st.
          case st of
            None \<Rightarrow> (None, True)
          | Some repos \<Rightarrow>
              if isDir d \<and> filepath_Ext p = ''.git'' \<and> os_Stat w (filepath_Join p ''HEAD'') \<noteq> None
              then
                (case pathToKey c p of
                   None \<Rightarrow> (None, True)
                 | Some k \<Rightarrow>
                     (Some (repos @ [\<lparr>key = k, path = p, accessTime = getAccessTime c w k p\<rparr>]),
                      True))
              else (Some repos, False))
       (Some [])"

text \<open>
  \<open>getMaxSize\<close>: the budget in bytes. \<open>availableBytes\<close> is the variable \<^verbatim>\<open>available\<close>, the
  product in int64 of the two numbers of the statfs call.
\<close>

definition availableBytes :: "nat \<Rightarrow> int \<Rightarrow> int" where
  "availableBytes bavail bsize = wrap64 (wrap64 (int bavail) * bsize)"

definition getMaxSize :: "platform \<Rightarrow> Cache \<Rightarrow> world \<Rightarrow> int" where
  "getMaxSize pl c w =
     (case statfs w of
        None \<Rightarrow> 0
      | Some (bavail, bsize) \<Rightarrow>
          (let available = availableBytes bavail bsize;
               share = (\<lambda>pct. f64_to_int64 (convOutOfRange pl)
                          (f64_div (f64_mul (f64_of_int available) pct) (Fin 100)));
               reserve = (\<lambda>totalUsable.
                  (let t = (if wrap64 (available - totalUsable) < MinFreeSpace
                            then wrap64 (available - MinFreeSpace) else totalUsable)
                   in if t < 0 then 0 else t))
           in if \<not> IsZero (maxSize c) then
                (if IsPercent (maxSize c) then reserve (share (Percent (maxSize c)))
                 else Bytes (maxSize c))
              else reserve (share DefaultMaxSizePercent)))"

text \<open>
  \<open>cleanEmptyParents\<close>: the loop over the parents of a removed repository. It ends
  because every step to the parent takes one slash off the path, until the path is
  \<^verbatim>\<open>.\<close> or \<^verbatim>\<open>/\<close>.
\<close>

definition slashes :: "string \<Rightarrow> nat" where
  "slashes p = length (filter (\<lambda>c. c = CHR ''/'') p)"

definition dirMeasure :: "string \<Rightarrow> nat" where
  "dirMeasure d = (if d = ''.'' \<or> d = ''/'' then 0 else Suc (slashes d))"

function cleanEmptyParents_loop :: "Cache \<Rightarrow> world \<Rightarrow> string \<Rightarrow> world" where
  "cleanEmptyParents_loop c w dir =
     (if dir \<noteq> root c \<and> dir \<noteq> ''.'' \<and> dir \<noteq> ''/'' then
        (case os_ReadDir w dir of
           None \<Rightarrow> w
         | Some es \<Rightarrow>
             if length es > 0 then w
             else
               (case os_Remove w dir of
                  None \<Rightarrow> w
                | Some w' \<Rightarrow> cleanEmptyParents_loop c w' (filepath_Dir dir)))
      else w)"
  by pat_completeness auto
termination
proof (relation "measure (\<lambda>(c, w, dir). dirMeasure dir)")
  show "wf (measure (\<lambda>(c, w, dir). dirMeasure dir))"
    by simp
next
  fix c :: Cache and w w' :: world and p :: string and es :: "(string \<times> node) list"
  assume guard: "p \<noteq> root c \<and> p \<noteq> ''.'' \<and> p \<noteq> ''/''"
  have split_ne: "splitPath s \<noteq> []" for s
    by (induction s) (auto split: list.splits)
  have split_length: "length (splitPath s) = Suc (slashes s)" for s
    by (induction s) (auto simp: slashes_def split_ne split: list.splits)
  have split_no_slash: "CHR ''/'' \<notin> set x" if "x \<in> set (splitPath s)" for x s
    using that by (induction s arbitrary: x) (auto split: list.splits if_splits)
  have split_snoc: "splitPath (s @ ''/'') = splitPath s @ [[]]" for s
    by (induction s) (auto simp: split_ne split: list.splits)
  have clean_set: "set (cleanComps r acc xs) \<subseteq> set acc \<union> set xs" for r acc xs
    by (induction r acc xs rule: cleanComps.induct) (auto split: list.splits if_splits)
  have clean_length:
    "length (cleanComps r acc xs) \<le> length acc + length (filter (\<lambda>x. x \<noteq> []) xs)" for r acc xs
    by (induction r acc xs rule: cleanComps.induct) (auto split: list.splits if_splits)
  have slashes_append: "slashes (a @ b) = slashes a + slashes b" for a b
    by (simp add: slashes_def)
  have slashes_none: "slashes x = 0" if "CHR ''/'' \<notin> set x" for x
    using that by (auto simp: slashes_def filter_empty_conv)
  have slashes_join: "slashes (joinComps cs) = length cs - 1"
    if "\<And>x. x \<in> set cs \<Longrightarrow> CHR ''/'' \<notin> set x" for cs
    using that
  proof (induction cs rule: joinComps.induct)
    case 1
    then show ?case by (simp add: slashes_def)
  next
    case (2 x)
    then show ?case by (simp add: slashes_none)
  next
    case (3 x y ys)
    have "slashes x = 0"
      using 3(2) [of x] by (simp add: slashes_none)
    moreover have "slashes (joinComps (y # ys)) = length (y # ys) - 1"
      using 3 by simp
    ultimately show ?case
      by (simp add: slashes_append) (simp add: slashes_def)
  qed
  have prefix_cases: "dirPrefix s = [] \<and> slashes s = 0 \<or>
      (\<exists>q. dirPrefix s = q @ ''/'' \<and> Suc (slashes q) = slashes s)" for s
  proof (induction s rule: rev_induct)
    case Nil
    then show ?case by (simp add: dirPrefix_def slashes_def)
  next
    case (snoc x xs)
    show ?case
    proof (cases "x = CHR ''/''")
      case True
      then show ?thesis by (simp add: dirPrefix_def slashes_def)
    next
      case False
      then have "dirPrefix (xs @ [x]) = dirPrefix xs" "slashes (xs @ [x]) = slashes xs"
        by (simp_all add: dirPrefix_def slashes_def)
      then show ?thesis using snoc by simp
    qed
  qed
  have "dirMeasure (filepath_Dir p) \<le> slashes p"
    using prefix_cases [of p]
  proof (elim disjE conjE exE)
    assume "dirPrefix p = []" "slashes p = 0"
    then show ?thesis
      by (simp add: filepath_Dir_def filepath_Clean_def isRooted_def dirMeasure_def)
  next
    fix q
    assume q: "dirPrefix p = q @ ''/''" "Suc (slashes q) = slashes p"
    define r where "r = isRooted (q @ ''/'')"
    define cs where "cs = cleanComps r [] (splitPath (q @ ''/''))"
    have "\<And>x. x \<in> set cs \<Longrightarrow> CHR ''/'' \<notin> set x"
      using clean_set [of r "[]" "splitPath (q @ ''/'')"] split_no_slash
      unfolding cs_def by auto
    then have js: "slashes (joinComps cs) = length cs - 1"
      by (rule slashes_join)
    have len: "length cs \<le> length (filter (\<lambda>x. x \<noteq> []) (splitPath q))"
      using clean_length [of r "[]" "splitPath (q @ ''/'')"]
      unfolding cs_def by (simp add: split_snoc)
    have dir: "filepath_Dir p =
        (if r then ''/'' @ joinComps cs else if cs = [] then ''.'' else joinComps cs)"
      by (simp add: filepath_Dir_def filepath_Clean_def q r_def cs_def Let_def)
    show ?thesis
    proof (cases r)
      case True
      then have "q = [] \<or> (\<exists>q'. q = CHR ''/'' # q')"
        by (cases q) (auto simp: r_def isRooted_def)
      then have "length cs \<le> slashes q"
      proof
        assume "q = []"
        then show ?thesis using len by simp
      next
        assume "\<exists>q'. q = CHR ''/'' # q'"
        then obtain q' where q': "q = CHR ''/'' # q'"
          by blast
        have "length (filter (\<lambda>x. x \<noteq> []) (splitPath q)) \<le> length (splitPath q')"
          by (simp add: q')
        then show ?thesis
          using len by (simp add: split_length q' slashes_def)
      qed
      then show ?thesis
        using True q(2) js
        by (cases "cs = []") (auto simp: dir dirMeasure_def slashes_append slashes_def)
    next
      case False
      have "length cs \<le> Suc (slashes q)"
        using len length_filter_le [of "\<lambda>x. x \<noteq> []" "splitPath q"]
        by (simp add: split_length)
      then show ?thesis
        using False q(2) js
        by (cases "cs = []") (auto simp: dir dirMeasure_def)
    qed
  qed
  then show "((c, w', filepath_Dir p), (c, w, p)) \<in> measure (\<lambda>(c, w, dir). dirMeasure dir)"
    using guard by (simp add: dirMeasure_def)
qed

declare cleanEmptyParents_loop.simps [simp del]

definition cleanEmptyParents :: "Cache \<Rightarrow> world \<Rightarrow> string \<Rightarrow> world" where
  "cleanEmptyParents c w p = cleanEmptyParents_loop c w (filepath_Dir p)"

text \<open>
  \<^verbatim>\<open>sort.Slice\<close>. On a slice of at most twelve elements the library (Go 1.19 and later)
  runs the insertion sort below: each element in turn moves to the left while it is less
  than its left neighbour (\<open>insertLeft\<close> works on the reversed prefix). On a longer slice
  the library runs a quicksort; what it returns is again a permutation of the slice that
  is sorted by the order given, so it is the list below whenever no two elements tie.
\<close>

fun insertLeft :: "('a \<Rightarrow> 'a \<Rightarrow> bool) \<Rightarrow> 'a \<Rightarrow> 'a list \<Rightarrow> 'a list" where
  "insertLeft lt x [] = [x]"
| "insertLeft lt x (y # ys) = (if lt x y then y # insertLeft lt x ys else x # y # ys)"

definition sort_Slice :: "('a \<Rightarrow> 'a \<Rightarrow> bool) \<Rightarrow> 'a list \<Rightarrow> 'a list" where
  "sort_Slice lt xs = rev (fold (insertLeft lt) xs [])"

text \<open>
  The sweep of \<open>MaybeEvict\<close>. Its result holds the cache and the file system after it, the
  variable \<^verbatim>\<open>currentSize\<close> (0 where the code returns before it is set), the
  repositories whose loop body ran to its end, each with the size measured for it, and the
  repositories whose loop body ended early on an error.
\<close>

record sweep =
  cacheAfter :: Cache
  worldAfter :: world
  currentSize :: int
  removed :: "(repoInfo \<times> int) list"
  failed :: "repoInfo list"

fun evictLoop :: "int \<Rightarrow> repoInfo list \<Rightarrow> sweep \<Rightarrow> sweep" where
  "evictLoop targetSize [] s = s"
| "evictLoop targetSize (repo # repos) s =
     (if currentSize s \<le> targetSize then s
      else
        (case getDirSize (worldAfter s) (path repo) of
           None \<Rightarrow> evictLoop targetSize repos (s\<lparr>failed := failed s @ [repo]\<rparr>)
         | Some repoSize \<Rightarrow>
             (case os_RemoveAll (worldAfter s) (path repo) of
                None \<Rightarrow> evictLoop targetSize repos (s\<lparr>failed := failed s @ [repo]\<rparr>)
              | Some w' \<Rightarrow>
                  evictLoop targetSize repos
                    \<lparr>cacheAfter = (cacheAfter s)
                       \<lparr>accessTimeMap := (accessTimeMap (cacheAfter s))(key repo := None)\<rparr>,
                     worldAfter = cleanEmptyParents (cacheAfter s) w' (path repo),
                     currentSize = wrap64 (currentSize s - repoSize),
                     removed = removed s @ [(repo, repoSize)],
                     failed = failed s\<rparr>)))"

definition targetSize_of :: "platform \<Rightarrow> int \<Rightarrow> int" where
  "targetSize_of pl maxBytes =
     f64_to_int64 (convOutOfRange pl) (f64_mul (f64_of_int maxBytes) (f64_round (9 / 10)))"

text \<open>\<open>MaybeEvict\<close>; \<open>None\<close> is the panic of \<open>pathToKey\<close>.\<close>

definition MaybeEvict :: "platform \<Rightarrow> Cache \<Rightarrow> world \<Rightarrow> sweep option" where
  "MaybeEvict pl c w =
     (let idle = \<lparr>cacheAfter = c, worldAfter = w, currentSize = 0, removed = [], failed = []\<rparr>;
          maxBytes = getMaxSize pl c w
      in if maxBytes \<le> 0 then Some idle
         else
           (case getDirSize w (root c) of
              None \<Rightarrow> Some idle
            | Some size0 \<Rightarrow>
                if size0 \<le> maxBytes then Some (idle\<lparr>currentSize := size0\<rparr>)
                else
                  (case listReposWithAccessTime c w of
                     None \<Rightarrow> None
                   | Some repos \<Rightarrow>
                       Some (evictLoop (targetSize_of pl maxBytes)
                               (sort_Slice (\<lambda>a b. accessTime a < accessTime b) repos)
                               (idle\<lparr>currentSize := size0\<rparr>)))))"

section \<open>Properties\<close>

subsection \<open>Rounding to float64\<close>

lemma p2_pos [simp]: "0 < (2::rat) powi e"
  by (simp add: zero_less_power_int)

lemma p2_add: "(2::rat) powi (a + b) = 2 powi a * 2 powi b"
  by (simp add: power_int_add)

lemma p2_mono: "a \<le> b \<Longrightarrow> (2::rat) powi a \<le> 2 powi b"
  by (rule power_int_increasing) auto

lemma p2_strict_mono: "a < b \<Longrightarrow> (2::rat) powi a < 2 powi b"
  by (rule power_int_strict_increasing) auto

lemma find_upto_None: "find P [i..j] = None \<longleftrightarrow> (\<forall>e. i \<le> e \<and> e \<le> j \<longrightarrow> \<not> P e)"
  by (auto simp: find_None_iff)

lemma find_upto_Some:
  assumes "find P [i..j] = Some e"
  shows "i \<le> e" "e \<le> j" "P e" "\<And>e'. i \<le> e' \<Longrightarrow> e' < e \<Longrightarrow> \<not> P e'"
proof -
  from assms obtain k where k: "k < length [i..j]" "P ([i..j] ! k)"
    "e = [i..j] ! k" "\<forall>l<k. \<not> P ([i..j] ! l)"
    by (auto simp: find_Some_iff)
  have nth: "[i..j] ! l = i + int l" if "l < length [i..j]" for l
    using that by (intro nth_upto) simp
  from k nth [of k] show "i \<le> e" "e \<le> j" "P e"
    by auto
  fix e' :: int
  assume e': "i \<le> e'" "e' < e"
  define l where "l = nat (e' - i)"
  from e' k nth [of k] have "l < k"
    by (auto simp: l_def)
  with k have "\<not> P ([i..j] ! l)"
    by blast
  moreover from \<open>l < k\<close> k e' have "[i..j] ! l = e'"
    by (simp add: nth l_def)
  ultimately show "\<not> P e'"
    by simp
qed

lemma f64_find_exponent:
  fixes q :: rat
  assumes "- 1074 \<le> e" "e \<le> 971" "q < 2 powi (e + 53)" "e = - 1074 \<or> 2 powi (e + 52) \<le> q"
  shows "find (\<lambda>e. q < 2 powi (e + 53)) f64_exponents = Some e"
proof (cases "find (\<lambda>e. q < 2 powi (e + 53)) [- 1074..971]")
  case None
  with assms show ?thesis
    unfolding f64_exponents_def find_upto_None by blast
next
  case (Some e')
  note s = find_upto_Some [OF Some]
  have "\<not> e < e'"
    using s(4) [of e] assms by auto
  moreover have "\<not> e' < e"
  proof
    assume lt: "e' < e"
    with s(1) assms have "2 powi (e + 52) \<le> q"
      by auto
    moreover have "(2::rat) powi (e' + 53) \<le> 2 powi (e + 52)"
      using lt by (intro p2_mono) simp
    ultimately show False
      using s(3) by simp
  qed
  ultimately show ?thesis
    using Some unfolding f64_exponents_def by simp
qed

lemma rhe_of_int [simp]: "round_half_even (of_int n) = n"
  by (simp add: round_half_even_def)

lemma rhe_floor_le: "\<lfloor>x\<rfloor> \<le> round_half_even x"
  by (simp add: round_half_even_def Let_def)

lemma rhe_le_floor: "round_half_even x \<le> \<lfloor>x\<rfloor> + 1"
  by (simp add: round_half_even_def Let_def)

lemma rhe_error: "\<bar>of_int (round_half_even x) - x\<bar> \<le> 1 / 2"
proof -
  have "of_int \<lfloor>x\<rfloor> \<le> x" "x < of_int \<lfloor>x\<rfloor> + 1"
    by linarith+
  then show ?thesis
    by (auto simp: round_half_even_def Let_def abs_le_iff)
qed

lemma rhe_le_int: "x \<le> of_int k \<Longrightarrow> round_half_even x \<le> k"
proof -
  assume a: "x \<le> of_int k"
  then have f: "\<lfloor>x\<rfloor> \<le> k"
    by (simp add: floor_le_iff)
  show ?thesis
  proof (cases "\<lfloor>x\<rfloor> = k")
    case True
    with a have "x = of_int k"
      by (metis of_int_floor_le order_antisym)
    then show ?thesis by simp
  next
    case False
    with f rhe_le_floor [of x] show ?thesis by linarith
  qed
qed

lemma rhe_ge_int: "of_int k \<le> x \<Longrightarrow> k \<le> round_half_even x"
proof -
  assume "of_int k \<le> x"
  then have "k \<le> \<lfloor>x\<rfloor>"
    by (simp add: le_floor_iff)
  with rhe_floor_le [of x] show ?thesis
    by linarith
qed

lemma rhe_nonneg: "0 \<le> x \<Longrightarrow> 0 \<le> round_half_even x"
  using rhe_ge_int [of 0 x] by simp

lemma f64_round_abs_exp:
  assumes "- 1074 \<le> e" "e \<le> 971" "q < 2 powi (e + 53)" "e = - 1074 \<or> 2 powi (e + 52) \<le> q"
  shows "f64_round_abs q =
    (if e = 971 \<and> round_half_even (q / 2 powi e) = 2 ^ 53 then PInf
     else Fin (of_int (round_half_even (q / 2 powi e)) * 2 powi e))"
  by (simp add: f64_round_abs_def f64_find_exponent [OF assms] Let_def)

lemma f64_round_abs_cases:
  assumes "0 \<le> q"
  obtains (inf) "f64_round_abs q = PInf" "(2 ^ 53 - 1 / 2) * 2 powi 971 \<le> q"
  | (fin) e where "- 1074 \<le> e" "e \<le> 971" "q < 2 powi (e + 53)"
      "e = - 1074 \<or> 2 powi (e + 52) \<le> q"
      "f64_round_abs q = Fin (of_int (round_half_even (q / 2 powi e)) * 2 powi e)"
      "0 \<le> round_half_even (q / 2 powi e)" "round_half_even (q / 2 powi e) \<le> 2 ^ 53"
      "round_half_even (q / 2 powi e) = 2 ^ 53 \<Longrightarrow> e < 971"
proof (cases "find (\<lambda>e. q < 2 powi (e + 53)) [- 1074..971]")
  case None
  then have "\<not> q < 2 powi (971 + 53)"
    unfolding find_upto_None by (drule_tac x = 971 in spec) simp
  then have "2 powi 971 * 2 ^ 53 \<le> q"
    unfolding p2_add by simp
  moreover have "(2 ^ 53 - 1 / 2) * 2 powi 971 \<le> 2 powi 971 * (2::rat) ^ 53"
    unfolding mult.commute [of "2 powi 971"] by (intro mult_right_mono) simp_all
  ultimately have "(2 ^ 53 - 1 / 2) * 2 powi 971 \<le> q"
    by (rule order_trans [rotated])
  moreover have "f64_round_abs q = PInf"
    unfolding f64_round_abs_def f64_exponents_def None by simp
  ultimately show ?thesis
    using inf by blast
next
  case (Some e)
  note s = find_upto_Some [OF Some]
  let ?m = "round_half_even (q / 2 powi e)"
  have low: "e = - 1074 \<or> 2 powi (e + 52) \<le> q"
  proof (cases "e = - 1074")
    case False
    with s(1) have "\<not> q < 2 powi (e - 1 + 53)"
      by (intro s(4)) auto
    moreover have "e - 1 + 53 = e + 52"
      by simp
    ultimately have "2 powi (e + 52) \<le> q"
      by (simp only: not_less)
    then show ?thesis ..
  qed simp
  have "q / 2 powi e < 2 ^ 53"
  proof -
    have "q < 2 powi e * 2 ^ 53"
      using s(3) by (simp add: p2_add)
    then show ?thesis
      by (simp add: pos_divide_less_eq mult.commute)
  qed
  then have m53: "?m \<le> 2 ^ 53"
    using rhe_le_int [of "q / 2 powi e" "2 ^ 53"] by simp
  have m0: "0 \<le> ?m"
    using assms by (intro rhe_nonneg) simp
  have eq: "f64_round_abs q = (if e = 971 \<and> ?m = 2 ^ 53 then PInf else Fin (of_int ?m * 2 powi e))"
    unfolding f64_round_abs_def f64_exponents_def Some by (simp add: Let_def)
  show ?thesis
  proof (cases "e = 971 \<and> ?m = 2 ^ 53")
    case True
    then have m: "?m = 2 ^ 53"
      by (rule conjunct2)
    from True have e: "e = 971"
      by (rule conjunct1)
    have "of_int ?m - 1 / 2 \<le> q / 2 powi e"
      using rhe_error [of "q / 2 powi e"] by linarith
    then have "(2::rat) ^ 53 - 1 / 2 \<le> q / 2 powi e"
      unfolding m by simp
    then have "(2 ^ 53 - 1 / 2) * 2 powi e \<le> q"
      by (simp only: pos_le_divide_eq p2_pos)
    then have "(2 ^ 53 - 1 / 2) * 2 powi 971 \<le> q"
      unfolding e .
    moreover have "f64_round_abs q = PInf"
      by (rule trans [OF eq if_P [OF True]])
    ultimately show ?thesis
      using inf by blast
  next
    case False
    have "f64_round_abs q = Fin (of_int ?m * 2 powi e)"
      by (rule trans [OF eq if_not_P [OF False]])
    moreover from False s(2) have "?m = 2 ^ 53 \<Longrightarrow> e < 971"
      by auto
    ultimately show ?thesis
      using s(1,2,3) low m0 m53 by (intro fin [of e]) 
  qed
qed

lemma p2_diff_nat: "e \<le> e0 \<Longrightarrow> (2::rat) powi e0 / 2 powi e = of_int (2 ^ nat (e0 - e))"
proof -
  assume "e \<le> e0"
  then have "(2::rat) powi (e0 - e) = 2 ^ nat (e0 - e)"
    by (simp add: power_int_nonneg_exp)
  then show ?thesis
    by (simp add: power_int_diff)
qed

lemma f64_repr_upper:
  fixes f :: rat
  assumes "f = of_int m * 2 powi e" "\<bar>m\<bar> < 2 ^ 53" "e \<le> E"
  shows "f < 2 powi (E + 53)"
proof -
  have "of_int m < (2::rat) ^ 53"
    using assms(2) by (metis abs_less_iff of_int_less_iff of_int_numeral of_int_power)
  then have "of_int m * 2 powi e < (2::rat) ^ 53 * 2 powi e"
    by (intro mult_strict_right_mono) simp_all
  also have "\<dots> = 2 powi (e + 53)"
    by (simp add: p2_add)
  also have "\<dots> \<le> 2 powi (E + 53)"
    using assms(3) by (intro p2_mono) simp
  finally show ?thesis
    using assms(1) by simp
qed

lemma f64_repr_not_inf:
  fixes f :: rat
  assumes "f = of_int m * 2 powi e" "\<bar>m\<bar> < 2 ^ 53" "e \<le> E"
  shows "f < (2 ^ 53 - 1 / 2) * 2 powi E"
proof -
  have "m \<le> 2 ^ 53 - 1"
    using assms(2) by simp
  then have "(of_int m :: rat) \<le> of_int (2 ^ 53 - 1)"
    by (simp only: of_int_le_iff)
  then have m: "(of_int m :: rat) \<le> 2 ^ 53 - 1"
    by simp
  show ?thesis
  proof (cases "0 \<le> m")
    case True
    have "of_int m * (2::rat) powi e \<le> of_int m * 2 powi E"
      using True assms(3) by (intro mult_left_mono p2_mono) simp_all
    also have "\<dots> \<le> (2 ^ 53 - 1) * 2 powi E"
      using m by (intro mult_right_mono) simp_all
    also have "\<dots> < (2 ^ 53 - 1 / 2) * 2 powi E"
      by (intro mult_strict_right_mono) simp_all
    finally show ?thesis
      using assms(1) by simp
  next
    case False
    then have "of_int m * (2::rat) powi e \<le> 0"
      by (simp add: mult_le_0_iff)
    also have "(0::rat) < (2 ^ 53 - 1 / 2) * 2 powi E"
      by (intro mult_pos_pos) simp_all
    finally show ?thesis
      using assms(1) by simp
  qed
qed

lemma f64_repr_multiple:
  fixes f :: rat
  assumes "f = of_int m * 2 powi e0" "e \<le> e0"
  shows "f / 2 powi e = of_int (m * 2 ^ nat (e0 - e))"
proof -
  have "f / 2 powi e = of_int m * (2 powi e0 / 2 powi e)"
    using assms(1) by simp
  also have "\<dots> = of_int (m * 2 ^ nat (e0 - e))"
    unfolding p2_diff_nat [OF assms(2)] by simp
  finally show ?thesis .
qed

lemma times_p2_cancel: "x / 2 powi e * 2 powi e = (x::rat)"
  by simp

lemma f64_round_abs_repr:
  assumes "0 \<le> q" "f64_repr q"
  shows "f64_round_abs q = Fin q"
proof -
  from assms(2) obtain m e0 where r: "q = of_int m * 2 powi e0" "\<bar>m\<bar> < 2 ^ 53"
    "- 1074 \<le> e0" "e0 \<le> 971"
    unfolding f64_repr_def by blast
  from assms(1) show ?thesis
  proof (cases rule: f64_round_abs_cases)
    case inf
    with f64_repr_not_inf [OF r(1,2,4)] have False
      using leD by blast
    then show ?thesis ..
  next
    case (fin e)
    have "e \<le> e0"
    proof (rule ccontr)
      assume "\<not> e \<le> e0"
      then have lt: "e0 < e"
        by simp
      with r(3) fin(4) have "2 powi (e + 52) \<le> q"
        by auto
      moreover have "q < 2 powi (e - 1 + 53)"
        using lt by (intro f64_repr_upper [OF r(1,2)]) simp
      moreover have "e - 1 + 53 = e + 52"
        by simp
      ultimately show False
        by simp
    qed
    then have "q / 2 powi e = of_int (m * 2 ^ nat (e0 - e))"
      by (rule f64_repr_multiple [OF r(1)])
    then have "of_int (round_half_even (q / 2 powi e)) * 2 powi e = q / 2 powi e * 2 powi e"
      by (simp only: rhe_of_int)
    with fin(5) show ?thesis
      by (simp only: times_p2_cancel)
  qed
qed

lemma f64_round_abs_le_repr:
  fixes x f :: rat
  assumes "0 \<le> x" "x \<le> f" "f64_repr f"
  obtains y where "f64_round_abs x = Fin y" "0 \<le> y" "y \<le> f"
proof -
  from assms(3) obtain m e0 where r: "f = of_int m * 2 powi e0" "\<bar>m\<bar> < 2 ^ 53"
    "- 1074 \<le> e0" "e0 \<le> 971"
    unfolding f64_repr_def by blast
  from assms(1) show ?thesis
  proof (cases rule: f64_round_abs_cases)
    case inf
    from inf(2) assms(2) have "(2 ^ 53 - 1 / 2) * 2 powi 971 \<le> f"
      by (rule order_trans)
    with f64_repr_not_inf [OF r(1,2,4)] have False
      using leD by blast
    then show ?thesis ..
  next
    case (fin e)
    let ?y = "of_int (round_half_even (x / 2 powi e)) * (2::rat) powi e"
    have "e \<le> e0"
    proof (rule ccontr)
      assume "\<not> e \<le> e0"
      then have lt: "e0 < e"
        by simp
      with r(3) fin(4) have "2 powi (e + 52) \<le> x"
        by auto
      moreover have "f < 2 powi (e - 1 + 53)"
        using lt by (intro f64_repr_upper [OF r(1,2)]) simp
      moreover have "e - 1 + 53 = e + 52"
        by simp
      ultimately show False
        using assms(2) by simp
    qed
    then have k: "f / 2 powi e = of_int (m * 2 ^ nat (e0 - e))"
      by (rule f64_repr_multiple [OF r(1)])
    have "x / 2 powi e \<le> f / 2 powi e"
      using assms(2) by (simp add: divide_right_mono)
    then have "round_half_even (x / 2 powi e) \<le> m * 2 ^ nat (e0 - e)"
      unfolding k by (rule rhe_le_int)
    then have "(of_int (round_half_even (x / 2 powi e)) :: rat) \<le> of_int (m * 2 ^ nat (e0 - e))"
      by (simp only: of_int_le_iff)
    then have "?y \<le> f / 2 powi e * 2 powi e"
      unfolding k by (intro mult_right_mono) simp_all
    then have "?y \<le> f"
      by (simp only: times_p2_cancel)
    moreover have "0 \<le> ?y"
      using fin(6) by simp
    ultimately show ?thesis
      using fin(5) that by blast
  qed
qed

lemma f64_round_abs_ge_repr:
  assumes "0 \<le> f" "f \<le> x" "f64_repr f" "f64_round_abs x = Fin y"
  shows "f \<le> y"
proof -
  from assms(3) obtain m e0 where r: "f = of_int m * 2 powi e0" "\<bar>m\<bar> < 2 ^ 53"
    "- 1074 \<le> e0" "e0 \<le> 971"
    unfolding f64_repr_def by blast
  from assms(1,2) have "0 \<le> x"
    by simp
  then show ?thesis
  proof (cases rule: f64_round_abs_cases)
    case inf
    from inf(1) assms(4) show ?thesis
      by simp
  next
    case (fin e)
    from fin(5) assms(4) have y: "y = of_int (round_half_even (x / 2 powi e)) * 2 powi e"
      by simp
    show ?thesis
    proof (cases "e \<le> e0")
      case True
      then have k: "f / 2 powi e = of_int (m * 2 ^ nat (e0 - e))"
        by (rule f64_repr_multiple [OF r(1)])
      have "f / 2 powi e \<le> x / 2 powi e"
        using assms(2) by (simp add: divide_right_mono)
      then have "m * 2 ^ nat (e0 - e) \<le> round_half_even (x / 2 powi e)"
        unfolding k by (rule rhe_ge_int)
      then have "(of_int (m * 2 ^ nat (e0 - e)) :: rat) \<le> of_int (round_half_even (x / 2 powi e))"
        by (simp only: of_int_le_iff)
      then have "f / 2 powi e * 2 powi e \<le> y"
        unfolding k y by (intro mult_right_mono) simp_all
      then show ?thesis
        by (simp only: times_p2_cancel)
    next
      case False
      then have lt: "e0 < e"
        by simp
      with r(3) fin(4) have "2 powi (e + 52) \<le> x"
        by auto
      then have "(2::rat) ^ 52 * 2 powi e \<le> x"
        by (simp add: p2_add mult.commute)
      then have "of_int (2 ^ 52) \<le> x / 2 powi e"
        by (simp add: pos_le_divide_eq)
      then have "2 ^ 52 \<le> round_half_even (x / 2 powi e)"
        by (rule rhe_ge_int)
      then have "(of_int (2 ^ 52) :: rat) \<le> of_int (round_half_even (x / 2 powi e))"
        by (simp only: of_int_le_iff)
      then have "of_int (2 ^ 52) * 2 powi e \<le> y"
        unfolding y by (intro mult_right_mono) simp_all
      then have "2 powi (e + 52) \<le> y"
        by (simp add: p2_add mult.commute)
      moreover have "f < 2 powi (e - 1 + 53)"
        using lt by (intro f64_repr_upper [OF r(1,2)]) simp
      moreover have "e - 1 + 53 = e + 52"
        by simp
      ultimately show ?thesis
        by simp
    qed
  qed
qed

lemma f64_round_abs_is_repr:
  assumes "0 \<le> x" "f64_round_abs x = Fin y"
  shows "f64_repr y" "0 \<le> y"
proof -
  from assms(1) have "f64_repr y \<and> 0 \<le> y"
  proof (cases rule: f64_round_abs_cases)
    case inf
    from inf(1) assms(2) show ?thesis
      by simp
  next
    case (fin e)
    let ?m = "round_half_even (x / 2 powi e)"
    from fin(5) assms(2) have y: "y = of_int ?m * 2 powi e"
      by simp
    have pos: "0 \<le> y"
      unfolding y using fin(6) by simp
    show ?thesis
    proof (cases "?m = 2 ^ 53")
      case True
      then have e: "e < 971"
        by (rule fin(8))
      have "(of_int (2 ^ 53) :: rat) * 2 powi e = of_int (2 ^ 52) * 2 powi (e + 1)"
        by (simp add: p2_add)
      then have y': "y = of_int (2 ^ 52) * 2 powi (e + 1)"
        unfolding y True .
      have "f64_repr y"
        unfolding f64_repr_def
      proof (intro exI conjI)
        show "y = of_int (2 ^ 52) * 2 powi (e + 1)"
          by (rule y')
        show "\<bar>2 ^ 52 :: int\<bar> < 2 ^ 53"
          by simp
        show "- 1074 \<le> e + 1" "e + 1 \<le> 971"
          using fin(1) e by simp_all
      qed
      with pos show ?thesis by (intro conjI)
    next
      case False
      with fin(6,7) have m: "\<bar>?m\<bar> < 2 ^ 53"
        by simp
      have "f64_repr y"
        unfolding f64_repr_def
      proof (intro exI conjI)
        show "y = of_int ?m * 2 powi e"
          by (rule y)
        show "\<bar>?m\<bar> < 2 ^ 53"
          by (rule m)
        show "- 1074 \<le> e" "e \<le> 971"
          by (rule fin(1), rule fin(2))
      qed
      with pos show ?thesis by (intro conjI)
    qed
  qed
  then show "f64_repr y" "0 \<le> y"
    by simp_all
qed

lemma f64_round_abs_error:
  assumes "2 powi (- 1022) \<le> x" "f64_round_abs x = Fin y"
  shows "\<bar>y - x\<bar> \<le> x / 2 ^ 53"
proof -
  have "(0::rat) < 2 powi (- 1022)"
    by (rule p2_pos)
  with assms(1) have "0 \<le> x"
    by linarith
  then show ?thesis
  proof (cases rule: f64_round_abs_cases)
    case inf
    from inf(1) assms(2) show ?thesis
      by simp
  next
    case (fin e)
    let ?p = "(2::rat) powi e"
    let ?m = "round_half_even (x / ?p)"
    from fin(5) assms(2) have y: "y = of_int ?m * ?p"
      by simp
    have "2 powi (e + 52) \<le> x"
    proof (cases "e = - 1074")
      case True
      then have "e + 52 = - 1022"
        by simp
      with assms(1) show ?thesis
        by (simp only:)
    next
      case False
      with fin(4) show ?thesis
        by simp
    qed
    then have low: "?p * 2 ^ 52 \<le> x"
      by (simp add: p2_add)
    have "y - x = (of_int ?m - x / ?p) * ?p"
      unfolding y by (simp add: algebra_simps)
    then have "\<bar>y - x\<bar> = \<bar>of_int ?m - x / ?p\<bar> * ?p"
      by (simp add: abs_mult)
    also have "\<dots> \<le> 1 / 2 * ?p"
      by (intro mult_right_mono rhe_error) simp
    also have "\<dots> = ?p * 2 ^ 52 / 2 ^ 53"
      by simp
    also have "\<dots> \<le> x / 2 ^ 53"
      using low by (intro divide_right_mono) simp_all
    finally show ?thesis .
  qed
qed

subsection \<open>The two formatters agree\<close>

lemma formatSize_loop_eq: "formatSize_loop n d e = FormatSize_loop n d e"
proof (induction n d e rule: FormatSize_loop.induct)
  case (1 n d e)
  show ?case
  proof (cases "1024 \<le> n")
    case True
    with "1" show ?thesis
      by (subst formatSize_loop.simps, subst FormatSize_loop.simps) simp
  next
    case False
    then show ?thesis
      by (subst formatSize_loop.simps, subst FormatSize_loop.simps) simp
  qed
qed

text \<open>
  C10. The package-private \<open>formatSize\<close> of the mirror cache and the exported
  \<open>FormatSize\<close> of the config package return the same string on every input (and
  panic on the same inputs, of which there are none among the int64 values).
\<close>

theorem formatSize_eq_FormatSize: "formatSize bytes = FormatSize bytes"
  by (simp add: formatSize_def FormatSize_def formatSize_loop_eq)

subsection \<open>FormatSize\<close>

lemma tdiv_nonneg: "0 \<le> a \<Longrightarrow> 0 < b \<Longrightarrow> tdiv a b = a div b"
  by (cases "a = 0") (simp_all add: tdiv_def)

lemma wrap64_id: "is_int64 n \<Longrightarrow> wrap64 n = n"
  by (simp add: wrap64_def is_int64_def)

lemma FormatSize_loop_spec:
  assumes "n = b div d" "d = 1024 ^ (e + 1)" "d \<le> b" "b < 2 ^ 63"
    "FormatSize_loop n d e = (d', e')"
  shows "d' = 1024 ^ (e' + 1) \<and> d' \<le> b \<and> b < 1024 * d' \<and> e \<le> e'"
  using assms
proof (induction n d e arbitrary: rule: FormatSize_loop.induct)
  case (1 n d e)
  have dpos: "0 < d"
    using "1.prems"(2) by simp
  show ?case
  proof (cases "1024 \<le> n")
    case True
    have big: "1024 * d \<le> b"
    proof -
      have "1024 * d \<le> (b div d) * d"
        using True "1.prems"(1) dpos by (intro mult_right_mono) simp_all
      also have "\<dots> \<le> b"
        using dpos by (metis div_mult_mod_eq le_add_same_cancel1 pos_mod_sign mult.commute)
      finally show ?thesis .
    qed
    have w: "wrap64 (d * 1024) = d * 1024"
      using big dpos "1.prems"(4) by (intro wrap64_id) (simp add: is_int64_def)
    have t: "tdiv n 1024 = n div 1024"
      using True by (intro tdiv_nonneg) simp_all
    have step: "FormatSize_loop (n div 1024) (d * 1024) (e + 1) = (d', e')"
      using "1.prems"(5) True by (subst (asm) FormatSize_loop.simps) (simp add: w t)
    have "d' = 1024 ^ (e' + 1) \<and> d' \<le> b \<and> b < 1024 * d' \<and> e + 1 \<le> e'"
    proof (rule "1.IH" [OF True])
      have "n div 1024 = b div (d * 1024)"
        unfolding "1.prems"(1) by (simp add: zdiv_zmult2_eq)
      then show "tdiv n 1024 = b div wrap64 (d * 1024)"
        unfolding w t .
      show "wrap64 (d * 1024) = 1024 ^ (e + 1 + 1)"
        using w unfolding "1.prems"(2) by simp
      show "wrap64 (d * 1024) \<le> b"
        unfolding w using big by (simp add: mult.commute)
      show "b < 2 ^ 63"
        by (rule "1.prems"(4))
      show "FormatSize_loop (tdiv n 1024) (wrap64 (d * 1024)) (e + 1) = (d', e')"
        unfolding w t by (rule step)
    qed
    then show ?thesis
      by simp
  next
    case False
    then have "(d', e') = (d, e)"
      using "1.prems"(5) by (subst (asm) FormatSize_loop.simps) simp
    moreover have "b < 1024 * d"
    proof -
      have "b mod d < d"
        using dpos by (rule pos_mod_bound)
      moreover have "b = (b div d) * d + b mod d"
        by simp
      moreover have "(b div d) * d \<le> 1023 * d"
        using False "1.prems"(1) dpos by (intro mult_right_mono) simp_all
      ultimately show ?thesis
        by linarith
    qed
    ultimately show ?thesis
      using "1.prems"(2,3) by simp
  qed
qed

lemma pow1024_lt_int64: "(1024::int) ^ (e + 1) < 2 ^ 63 \<Longrightarrow> e < 6"
proof (rule ccontr)
  assume a: "(1024::int) ^ (e + 1) < 2 ^ 63" and "\<not> e < 6"
  then have "7 \<le> e + 1"
    by simp
  then have "(1024::int) ^ 7 \<le> 1024 ^ (e + 1)"
    by (intro power_increasing) simp_all
  with a show False
    by simp
qed

lemma FormatSize_large:
  assumes "1024 \<le> n" "n < 2 ^ 63"
  obtains e where "e < 6" "1024 ^ (e + 1) \<le> n" "n < 1024 ^ (e + 2)"
    "FormatSize n = Some (fmt_f1 (f64_div (f64_of_int n) (f64_of_int (1024 ^ (e + 1)))) @ '' '' @
        [''KMGTPE'' ! e] @ ''iB'')"
proof -
  obtain d e where l: "FormatSize_loop (n div 1024) 1024 0 = (d, e)"
    by (cases "FormatSize_loop (n div 1024) 1024 0")
  from assms have s: "d = 1024 ^ (e + 1) \<and> d \<le> n \<and> n < 1024 * d \<and> 0 \<le> e"
    by (intro FormatSize_loop_spec [OF _ _ _ _ l]) simp_all
  with assms(2) have "(1024::int) ^ (e + 1) < 2 ^ 63"
    by simp
  then have e6: "e < 6"
    by (rule pow1024_lt_int64)
  have t: "tdiv n 1024 = n div 1024"
    using assms(1) by (intro tdiv_nonneg) simp_all
  have "FormatSize n = Some (fmt_f1 (f64_div (f64_of_int n) (f64_of_int d)) @ '' '' @
        [''KMGTPE'' ! e] @ ''iB'')"
    using assms(1) e6 by (simp add: FormatSize_def t l)
  with s e6 show ?thesis
    by (intro that [of e]) simp_all
qed

lemma f64_repr_of_int: "\<bar>n\<bar> < 2 ^ 53 \<Longrightarrow> f64_repr (of_int n)"
  unfolding f64_repr_def by (intro exI [of _ n] exI [of _ 0]) simp

lemma f64_repr_dyadic: "\<bar>m\<bar> < 2 ^ 53 \<Longrightarrow> k \<le> 1074 \<Longrightarrow> f64_repr (of_int m / 2 ^ k)"
  unfolding f64_repr_def
  by (intro exI [of _ m] exI [of _ "- int k"]) (simp add: power_int_minus field_simps)

lemma f64_round_nonneg: "0 \<le> q \<Longrightarrow> f64_round q = f64_round_abs q"
  by (simp add: f64_round_def)

lemma f64_round_repr: "0 \<le> q \<Longrightarrow> f64_repr q \<Longrightarrow> f64_round q = Fin q"
  by (simp add: f64_round_nonneg f64_round_abs_repr)

lemma f64_round_of_int: "0 \<le> n \<Longrightarrow> n < 2 ^ 53 \<Longrightarrow> f64_round (of_int n) = Fin (of_int n)"
  by (intro f64_round_repr f64_repr_of_int) simp_all

lemma f64_of_int_exact: "0 \<le> n \<Longrightarrow> n < 2 ^ 53 \<Longrightarrow> f64_of_int n = Fin (of_int n)"
  by (simp add: f64_of_int_def f64_round_of_int)

lemma f64_round_dyadic:
  "0 \<le> m \<Longrightarrow> m < 2 ^ 53 \<Longrightarrow> k \<le> 1074 \<Longrightarrow> f64_round (of_int m / 2 ^ k) = Fin (of_int m / 2 ^ k)"
  by (intro f64_round_repr f64_repr_dyadic) simp_all

lemma rhe_numeral [simp]: "round_half_even (numeral k) = numeral k"
  using rhe_of_int [of "numeral k"] by simp

lemma digit_char_simps [simp]:
  "digit_char 0 = CHR ''0''" "digit_char 1 = CHR ''1''" "digit_char 2 = CHR ''2''"
  "digit_char 3 = CHR ''3''" "digit_char 4 = CHR ''4''" "digit_char 5 = CHR ''5''"
  "digit_char 6 = CHR ''6''" "digit_char 7 = CHR ''7''" "digit_char 8 = CHR ''8''"
  "digit_char 9 = CHR ''9''" "digit_char (Suc 0) = CHR ''1''"
  by (simp_all add: digit_char_def)

lemma FormatSize_1024: "FormatSize 1024 = Some ''1.0 KiB''"
proof -
  have "f64_div (f64_of_int 1024) (f64_of_int 1024) = Fin 1"
    using f64_of_int_exact [of 1024] f64_round_of_int [of 1] by simp
  then show ?thesis
    by (simp add: FormatSize_def tdiv_def FormatSize_loop.simps fmt_f1_abs_def decimal.simps)
qed

lemma FormatSize_200GiB: "FormatSize (200 * 2 ^ 30) = Some ''200.0 GiB''"
proof -
  have "f64_div (f64_of_int 214748364800) (f64_of_int 1073741824) = Fin 200"
    using f64_of_int_exact [of 214748364800] f64_of_int_exact [of 1073741824]
      f64_round_of_int [of 200] by simp
  then show ?thesis
    by (simp add: FormatSize_def tdiv_def FormatSize_loop.simps wrap64_def fmt_f1_abs_def
        decimal.simps)
qed

lemma FormatSize_0: "FormatSize 0 = Some ''0 B''"
  by (simp add: FormatSize_def fmt_d_def decimal.simps)

text \<open>
  C7. For every byte count \<open>n\<close>, \<open>FormatSize n\<close> is the decimal rendering of \<open>n\<close> followed
  by \<open>" B"\<close> when \<open>n < 1024\<close>; otherwise it is the \<^verbatim>\<open>%.1f\<close> rendering of the quotient the code
  computes (\<open>float64(n) / float64(1024^(e+1))\<close>), a space, the unit letter at index \<open>e\<close> of
  \<open>KMGTPE\<close> and \<open>iB\<close>, where \<open>e\<close> is such that the mantissa \<open>n / 1024^(e+1)\<close> lies in \<open>[1, 1024)\<close>.
  The index never leaves the string, so the function never panics. In particular
  \<open>FormatSize 1024 = "1.0 KiB"\<close>, \<open>FormatSize (200 * 2^30) = "200.0 GiB"\<close> and
  \<open>FormatSize 0 = "0 B"\<close>.
\<close>

theorem FormatSize_format:
  "(\<forall>n. is_int64 n \<longrightarrow>
      (n < 1024 \<longrightarrow> FormatSize n = Some (fmt_d n @ '' B'')) \<and>
      (1024 \<le> n \<longrightarrow>
        (\<exists>e<6. FormatSize n =
            Some (fmt_f1 (f64_div (f64_of_int n) (f64_of_int (1024 ^ (e + 1)))) @ '' '' @
                  [''KMGTPE'' ! e] @ ''iB'') \<and>
          1 \<le> (of_int n / 1024 ^ (e + 1) :: rat) \<and>
          (of_int n / 1024 ^ (e + 1) :: rat) < 1024))) \<and>
   FormatSize 1024 = Some ''1.0 KiB'' \<and>
   FormatSize (200 * 2 ^ 30) = Some ''200.0 GiB'' \<and>
   FormatSize 0 = Some ''0 B''"
proof (intro conjI allI impI)
  fix n :: int
  assume "n < 1024"
  then show "FormatSize n = Some (fmt_d n @ '' B'')"
    by (simp add: FormatSize_def)
next
  fix n :: int
  assume n: "is_int64 n" "1024 \<le> n"
  then have "n < 2 ^ 63"
    by (simp add: is_int64_def)
  with n(2) obtain e where e: "e < 6" "1024 ^ (e + 1) \<le> n" "n < 1024 ^ (e + 2)"
    "FormatSize n = Some (fmt_f1 (f64_div (f64_of_int n) (f64_of_int (1024 ^ (e + 1)))) @ '' '' @
        [''KMGTPE'' ! e] @ ''iB'')"
    by (rule FormatSize_large)
  have "(of_int (1024 ^ (e + 1)) :: rat) \<le> of_int n"
    using e(2) by (simp only: of_int_le_iff)
  then have lo: "1 \<le> (of_int n / 1024 ^ (e + 1) :: rat)"
    by (simp add: pos_le_divide_eq)
  have "(of_int n :: rat) < of_int (1024 ^ (e + 2))"
    using e(3) by (simp only: of_int_less_iff)
  then have hi: "(of_int n / 1024 ^ (e + 1) :: rat) < 1024"
    by (simp add: pos_divide_less_eq)
  from e(1,4) lo hi
  show "\<exists>e<6. FormatSize n =
            Some (fmt_f1 (f64_div (f64_of_int n) (f64_of_int (1024 ^ (e + 1)))) @ '' '' @
                  [''KMGTPE'' ! e] @ ''iB'') \<and>
          1 \<le> (of_int n / 1024 ^ (e + 1) :: rat) \<and>
          (of_int n / 1024 ^ (e + 1) :: rat) < 1024"
    by blast
qed (rule FormatSize_1024 FormatSize_200GiB FormatSize_0)+

lemma FormatSize_1536: "FormatSize 1536 = Some ''1.5 KiB''"
proof -
  have "f64_div (f64_of_int 1536) (f64_of_int 1024) = Fin (3 / 2)"
    using f64_of_int_exact [of 1536] f64_of_int_exact [of 1024] f64_round_dyadic [of 3 1] by simp
  moreover have "round_half_even 15 = 15"
    by simp
  ultimately show ?thesis
    by (simp add: FormatSize_def tdiv_def FormatSize_loop.simps fmt_f1_abs_def decimal.simps)
qed

theorem FormatSize_format_witness:
  "is_int64 1536 \<and> FormatSize 1536 = Some ''1.5 KiB'' \<and>
   (\<exists>e<6. FormatSize 1536 =
      Some (fmt_f1 (f64_div (f64_of_int 1536) (f64_of_int (1024 ^ (e + 1)))) @ '' '' @
            [''KMGTPE'' ! e] @ ''iB'') \<and>
      1 \<le> (of_int 1536 / 1024 ^ (e + 1) :: rat) \<and> (of_int 1536 / 1024 ^ (e + 1) :: rat) < 1024)"
proof -
  have i: "is_int64 1536"
    by (simp add: is_int64_def)
  from FormatSize_format have "\<forall>n. is_int64 n \<longrightarrow>
      (n < 1024 \<longrightarrow> FormatSize n = Some (fmt_d n @ '' B'')) \<and>
      (1024 \<le> n \<longrightarrow>
        (\<exists>e<6. FormatSize n =
            Some (fmt_f1 (f64_div (f64_of_int n) (f64_of_int (1024 ^ (e + 1)))) @ '' '' @
                  [''KMGTPE'' ! e] @ ''iB'') \<and>
          1 \<le> (of_int n / 1024 ^ (e + 1) :: rat) \<and>
          (of_int n / 1024 ^ (e + 1) :: rat) < 1024))"
    by (rule conjunct1)
  with i have "1024 \<le> (1536::int) \<longrightarrow>
        (\<exists>e<6. FormatSize 1536 =
            Some (fmt_f1 (f64_div (f64_of_int 1536) (f64_of_int (1024 ^ (e + 1)))) @ '' '' @
                  [''KMGTPE'' ! e] @ ''iB'') \<and>
          1 \<le> (of_int 1536 / 1024 ^ (e + 1) :: rat) \<and>
          (of_int 1536 / 1024 ^ (e + 1) :: rat) < 1024)"
    by blast
  then show ?thesis
    using i FormatSize_1536 by simp
qed

subsection \<open>ParseSize and ParseSizeSpec\<close>

lemma printable_nat: "printable c \<longleftrightarrow> 33 \<le> (of_char c :: nat) \<and> (of_char c :: nat) \<le> 126"
  by (simp add: printable_def less_eq_char_def)

lemma isDigit_nat: "isDigit c \<longleftrightarrow> 48 \<le> (of_char c :: nat) \<and> (of_char c :: nat) \<le> 57"
  by (simp add: isDigit_def less_eq_char_def)

lemma isLetter_nat:
  "isLetter c \<longleftrightarrow> 97 \<le> (of_char c :: nat) \<and> (of_char c :: nat) \<le> 122 \<or>
     65 \<le> (of_char c :: nat) \<and> (of_char c :: nat) \<le> 90"
  by (simp add: isLetter_def isLower_def isUpper_def less_eq_char_def)

lemma isReSpace_nat: "isReSpace c \<Longrightarrow> (of_char c :: nat) \<in> {9, 10, 12, 13, 32}"
  by (auto simp: isReSpace_def)

lemma isDigit_printable: "isDigit c \<Longrightarrow> printable c"
  by (simp add: isDigit_nat printable_nat)

lemma isLetter_printable: "isLetter c \<Longrightarrow> printable c"
  by (auto simp: isLetter_nat printable_nat)

lemma TrimLeftSpace_printable:
  assumes "s \<noteq> []" "printable (hd s)"
  shows "TrimLeftSpace s = s"
proof -
  from assms obtain c r where s: "s = c # r"
    by (cases s) auto
  with assms(2) have c: "33 \<le> (of_char c :: nat)" "(of_char c :: nat) \<le> 126"
    by (simp_all add: printable_nat)
  have "find (HasPrefix s) space_runes = None"
    unfolding find_None_iff space_runes_def HasPrefix_def s using c by auto
  then show ?thesis
    by (subst TrimLeftSpace.simps) simp
qed

lemma TrimRightSpace_printable:
  assumes "s \<noteq> []" "printable (last s)"
  shows "TrimRightSpace s = s"
proof -
  from assms obtain c r where s: "s = r @ [c]"
    by (cases s rule: rev_cases) auto
  with assms(2) have c: "33 \<le> (of_char c :: nat)" "(of_char c :: nat) \<le> 126"
    by (simp_all add: printable_nat)
  have "find (HasSuffix s) space_runes = None"
    unfolding find_None_iff space_runes_def HasSuffix_def s using c by auto
  then show ?thesis
    by (subst TrimRightSpace.simps) simp
qed

lemma TrimSpace_printable:
  "s \<noteq> [] \<Longrightarrow> printable (hd s) \<Longrightarrow> printable (last s) \<Longrightarrow> TrimSpace s = s"
  by (simp add: TrimSpace_def TrimLeftSpace_printable TrimRightSpace_printable)

lemma takeWhile_stop:
  "\<forall>x\<in>set xs. P x \<Longrightarrow> ys = [] \<or> \<not> P (hd ys) \<Longrightarrow> takeWhile P (xs @ ys) = xs"
  by (cases ys) (auto simp: takeWhile_append2)

lemma dropWhile_stop:
  "\<forall>x\<in>set xs. P x \<Longrightarrow> ys = [] \<or> \<not> P (hd ys) \<Longrightarrow> dropWhile P (xs @ ys) = ys"
  by (cases ys) (auto simp: dropWhile_append2)

lemma sizeRegexp_match:
  assumes ds: "ds \<noteq> []" "\<forall>c\<in>set ds. isDigit c"
    and fs: "\<forall>c\<in>set fs. isDigit c"
    and ws: "\<forall>c\<in>set ws. isReSpace c"
    and u: "\<forall>c\<in>set u. isLetter c"
  shows "sizeRegexp (ds @ frac_part fs @ ws @ u) = Some (ds @ frac_part fs, u)"
proof -
  have nd_ws: "\<not> isDigit c" "\<not> isLetter c" "c \<noteq> CHR ''.''" if "isReSpace c" for c
    using that by (auto simp: isDigit_nat isLetter_nat dest!: isReSpace_nat)
  have nd_u: "\<not> isDigit c" "\<not> isReSpace c" "c \<noteq> CHR ''.''" if "isLetter c" for c
    using that by (auto simp: isDigit_nat isLetter_nat dest!: isReSpace_nat)
  have dot: "\<not> isDigit CHR ''.''"
    by (simp add: isDigit_nat)
  have stop_d: "ws @ u = [] \<or> \<not> isDigit (hd (ws @ u))"
    using ws u nd_ws(1) nd_u(1) by (cases ws; cases u) auto
  have stop_dot: "ws @ u = [] \<or> hd (ws @ u) \<noteq> CHR ''.''"
    using ws u nd_ws(3) nd_u(3) by (cases ws; cases u) auto
  have stop_w: "u = [] \<or> \<not> isReSpace (hd u)"
    using u nd_u(2) by (cases u) auto
  have r3: "dropWhile isReSpace (ws @ u) = u"
    using ws stop_w by (rule dropWhile_stop)
  have lt: "takeWhile isLetter u = u" "dropWhile isLetter u = []"
    using u by simp_all
  show ?thesis
  proof (cases "fs = []")
    case True
    have t: "takeWhile isDigit (ds @ ws @ u) = ds" and d: "dropWhile isDigit (ds @ ws @ u) = ws @ u"
      using ds(2) stop_d by (rule takeWhile_stop, rule dropWhile_stop)
    show ?thesis
    proof (cases "ws @ u")
      case Nil
      with True ds show ?thesis
        by (simp add: sizeRegexp_def frac_part_def Let_def takeWhile_eq_all_conv [THEN iffD2]
            dropWhile_eq_Nil_conv [THEN iffD2])
    next
      case (Cons c r)
      with stop_dot have "c \<noteq> CHR ''.''"
        by simp
      with True ds(1) t d r3 lt Cons show ?thesis
        by (simp add: sizeRegexp_def frac_part_def Let_def)
    qed
  next
    case False
    have stop1: "CHR ''.'' # fs @ ws @ u = [] \<or> \<not> isDigit (hd (CHR ''.'' # fs @ ws @ u))"
      using dot by simp
    have t: "takeWhile isDigit (ds @ CHR ''.'' # fs @ ws @ u) = ds"
      and d: "dropWhile isDigit (ds @ CHR ''.'' # fs @ ws @ u) = CHR ''.'' # fs @ ws @ u"
      using ds(2) stop1 by (rule takeWhile_stop, rule dropWhile_stop)
    have t2: "takeWhile isDigit (fs @ ws @ u) = fs" and d2: "dropWhile isDigit (fs @ ws @ u) = ws @ u"
      using fs stop_d by (rule takeWhile_stop, rule dropWhile_stop)
    from False ds(1) t d t2 d2 r3 lt show ?thesis
      by (simp add: sizeRegexp_def frac_part_def Let_def)
  qed
qed

lemma parse_decimal_unsigned:
  assumes ds: "ds \<noteq> []" "\<forall>c\<in>set ds. isDigit c" and fs: "\<forall>c\<in>set fs. isDigit c"
  shows "parse_decimal (ds @ frac_part fs) =
    (case f64_round_abs (dec_number ds fs) of Fin q \<Rightarrow> Some (Fin q) | _ \<Rightarrow> None)"
proof -
  define s where "s = ds @ frac_part fs"
  from ds obtain c r where c: "ds = c # r" "isDigit c"
    by (cases ds) auto
  then have sign: "c \<noteq> CHR ''-''" "c \<noteq> CHR ''+''"
    by (auto simp: isDigit_nat)
  have dot: "\<not> isDigit CHR ''.''"
    by (simp add: isDigit_nat)
  have hd_s: "hd s = c" and ne: "s \<noteq> []"
    using c(1) by (simp_all add: s_def)
  have stop: "frac_part fs = [] \<or> \<not> isDigit (hd (frac_part fs))"
    using dot by (simp add: frac_part_def)
  have ip: "takeWhile isDigit s = ds" and r: "dropWhile isDigit s = frac_part fs"
    unfolding s_def using ds(2) stop by (rule takeWhile_stop, rule dropWhile_stop)
  have A: "(if s \<noteq> [] \<and> (hd s = CHR ''-'' \<or> hd s = CHR ''+'') then tl s else s) = s"
    using sign hd_s by simp
  have B: "(s \<noteq> [] \<and> hd s = CHR ''-'') = False"
    using sign hd_s by simp
  have hasdot: "(frac_part fs \<noteq> [] \<and> hd (frac_part fs) = CHR ''.'') = (fs \<noteq> [])"
    by (simp add: frac_part_def)
  have fp: "(if fs \<noteq> [] then takeWhile isDigit (tl (frac_part fs)) else []) = fs"
    using fs by (simp add: frac_part_def)
  have rest: "(if fs \<noteq> [] then dropWhile isDigit (tl (frac_part fs)) else frac_part fs) = []"
    using fs by (simp add: frac_part_def)
  have "parse_decimal s =
    (if [] \<noteq> ([] :: string) \<or> ds @ fs = [] then None
     else case f64_round_abs (dec_number ds fs) of
        Fin q \<Rightarrow> Some (Fin (if False then - q else q)) | _ \<Rightarrow> None)"
    unfolding parse_decimal_def Let_def A B ip r hasdot fp rest ..
  also have "\<dots> = (case f64_round_abs (dec_number ds fs) of Fin q \<Rightarrow> Some (Fin q) | _ \<Rightarrow> None)"
    using ds(1) by (simp split: float64.splits)
  finally show ?thesis
    unfolding s_def .
qed

lemma ParseFloat_unsigned:
  assumes ds: "ds \<noteq> []" "\<forall>c\<in>set ds. isDigit c" and fs: "\<forall>c\<in>set fs. isDigit c"
  shows "ParseFloat other (ds @ frac_part fs) =
    (case f64_round_abs (dec_number ds fs) of Fin q \<Rightarrow> Some (Fin q) | _ \<Rightarrow> None)"
proof -
  have "\<not> (isLetter c \<or> c = CHR ''_'')" if "isDigit c \<or> c = CHR ''.''" for c
    using that by (auto simp: isDigit_nat isLetter_nat)
  with ds fs have "\<not> (\<exists>c\<in>set (ds @ frac_part fs). isLetter c \<or> c = CHR ''_'')"
    by (auto simp: frac_part_def split: if_splits)
  then show ?thesis
    using parse_decimal_unsigned [OF assms] by (simp add: ParseFloat_def)
qed

lemma floor_rat_numeral_div [simp]: "\<lfloor>numeral a / numeral b :: rat\<rfloor> = numeral a div numeral b"
  using floor_divide_of_int_eq [of "numeral a" "numeral b", where ?'a = rat] by simp

lemma unit_multiplier_factor: "unit_multiplier U = map_option Fin (unit_factor U)"
  by (simp add: unit_multiplier_def unit_factor_def)

lemma dec_number_nonneg: "0 \<le> dec_number ds fs"
  by (simp add: dec_number_def)

lemma ParseSize_grammar:
  assumes ds: "ds \<noteq> []" "\<forall>c\<in>set ds. isDigit c"
    and fs: "\<forall>c\<in>set fs. isDigit c"
    and ws: "\<forall>c\<in>set ws. isReSpace c"
    and u: "\<forall>c\<in>set u. isLetter c"
    and trimmed: "u \<noteq> [] \<or> ws = []"
    and f: "unit_factor (ToUpper u) = Some f"
  shows "ParseSize pl (ds @ frac_part fs @ ws @ u) =
    (case f64_round (dec_number ds fs) of
       Fin num \<Rightarrow> Inr (f64_to_int64 (convOutOfRange pl) (f64_round (num * f)))
     | _ \<Rightarrow> Inl (InvalidNumber (ds @ frac_part fs)))"
proof -
  define s where "s = ds @ frac_part fs @ ws @ u"
  have ne: "s \<noteq> []"
    using ds(1) by (simp add: s_def)
  have "hd s = hd ds"
    using ds(1) by (simp add: s_def)
  with ds have h: "printable (hd s)"
    by (simp add: isDigit_printable)
  have l: "printable (last s)"
  proof (cases "u = []")
    case False
    then have "last s = last u"
      by (simp add: s_def)
    with False u show ?thesis
      by (simp add: isLetter_printable)
  next
    case True
    with trimmed have w: "ws = []"
      by simp
    show ?thesis
    proof (cases "fs = []")
      case True
      with \<open>u = []\<close> w ds show ?thesis
        by (simp add: s_def frac_part_def isDigit_printable)
    next
      case False
      with \<open>u = []\<close> w fs show ?thesis
        by (simp add: s_def frac_part_def isDigit_printable)
    qed
  qed
  have trim: "TrimSpace s = s"
    using ne h l by (rule TrimSpace_printable)
  have re: "sizeRegexp s = Some (ds @ frac_part fs, u)"
    unfolding s_def using ds fs ws u by (rule sizeRegexp_match)
  have pf: "ParseFloat (parseFloatOther pl) (ds @ frac_part fs) =
    (case f64_round_abs (dec_number ds fs) of Fin q \<Rightarrow> Some (Fin q) | _ \<Rightarrow> None)"
    using ds fs by (rule ParseFloat_unsigned)
  have r: "f64_round (dec_number ds fs) = f64_round_abs (dec_number ds fs)"
    by (rule f64_round_nonneg) (rule dec_number_nonneg)
  show ?thesis
    unfolding s_def [symmetric] ParseSize_def trim Let_def re
    using ne by (simp add: pf r unit_multiplier_factor f split: float64.splits)
qed

lemmas toUpper_eval = ToUpper_def toUpperChar_def isLower_def less_eq_char_def char_of_eq_iff

lemmas char_class_eval = isDigit_def isLetter_def isLower_def isUpper_def isReSpace_def
  less_eq_char_def

lemma digit_val_simps [simp]:
  "digit_val CHR ''0'' = 0" "digit_val CHR ''1'' = 1" "digit_val CHR ''2'' = 2"
  "digit_val CHR ''3'' = 3" "digit_val CHR ''4'' = 4" "digit_val CHR ''5'' = 5"
  "digit_val CHR ''6'' = 6" "digit_val CHR ''7'' = 7" "digit_val CHR ''8'' = 8"
  "digit_val CHR ''9'' = 9"
  by (simp_all add: digit_val_def)

lemma ToUpper_GiB: "ToUpper ''GiB'' = ''GIB''"
  by (simp add: toUpper_eval)

lemma ParseSize_1_5GiB: "ParseSize pl ''1.5GiB'' = Inr 1610612736"
proof -
  have n: "dec_number ''1'' ''5'' = 3 / 2"
    by (simp add: dec_number_def dec_val_def)
  have r1: "f64_round (3 / 2) = Fin (3 / 2)"
    using f64_round_dyadic [of 3 1] by simp
  have r2: "f64_round 1610612736 = Fin 1610612736"
    using f64_round_of_int [of 1610612736] by simp
  have "ParseSize pl (''1'' @ frac_part ''5'' @ [] @ ''GiB'') =
    (case f64_round (dec_number ''1'' ''5'') of
       Fin num \<Rightarrow> Inr (f64_to_int64 (convOutOfRange pl) (f64_round (num * 1024 ^ 3)))
     | _ \<Rightarrow> Inl (InvalidNumber (''1'' @ frac_part ''5'')))"
    by (rule ParseSize_grammar)
      (simp_all add: char_class_eval ToUpper_GiB unit_factor_def)
  then show ?thesis
    by (simp add: frac_part_def n r1 r2 f64_to_int64_def rat_trunc_def is_int64_def)
qed

lemma ToUpper_GB: "ToUpper ''GB'' = ''GB''" "ToUpper ''gb'' = ''GB''" "ToUpper ''KB'' = ''KB''"
  by (simp_all add: toUpper_eval)

lemma ParseSize_200GB: "ParseSize pl ''200GB'' = Inr 200000000000"
proof -
  have n: "dec_number ''200'' [] = 200"
    by (simp add: dec_number_def dec_val_def)
  have r1: "f64_round 200 = Fin 200"
    using f64_round_of_int [of 200] by simp
  have r2: "f64_round 200000000000 = Fin 200000000000"
    using f64_round_of_int [of 200000000000] by simp
  have "ParseSize pl (''200'' @ frac_part [] @ [] @ ''GB'') =
    (case f64_round (dec_number ''200'' []) of
       Fin num \<Rightarrow> Inr (f64_to_int64 (convOutOfRange pl) (f64_round (num * 1000 ^ 3)))
     | _ \<Rightarrow> Inl (InvalidNumber (''200'' @ frac_part [])))"
    by (rule ParseSize_grammar) (simp_all add: char_class_eval ToUpper_GB unit_factor_def)
  then show ?thesis
    by (simp add: frac_part_def n r1 r2 f64_to_int64_def rat_trunc_def is_int64_def)
qed

lemma f64_round_1_001: "f64_round (1001 / 1000) = Fin (2254051613498933 / 2251799813685248)"
proof -
  have "f64_round_abs (1001 / 1000) = Fin (2254051613498933 / 2251799813685248)"
    using f64_round_abs_exp [of "- 52" "1001 / 1000"]
    by (simp add: round_half_even_def Let_def)
  then show ?thesis
    by (simp add: f64_round_nonneg)
qed

lemma f64_round_1_001_times_1000:
  "f64_round (281756451687366625 / 281474976710656) = Fin (8804889115230207 / 8796093022208)"
proof -
  have "f64_round_abs (281756451687366625 / 281474976710656) =
      Fin (8804889115230207 / 8796093022208)"
    using f64_round_abs_exp [of "- 43" "281756451687366625 / 281474976710656"]
    by (simp add: round_half_even_def Let_def)
  then show ?thesis
    by (simp add: f64_round_nonneg)
qed

lemma ParseSize_1_001KB: "ParseSize pl ''1.001KB'' = Inr 1000"
proof -
  have n: "dec_number ''1'' ''001'' = 1001 / 1000"
    by (simp add: dec_number_def dec_val_def)
  have "ParseSize pl (''1'' @ frac_part ''001'' @ [] @ ''KB'') =
    (case f64_round (dec_number ''1'' ''001'') of
       Fin num \<Rightarrow> Inr (f64_to_int64 (convOutOfRange pl) (f64_round (num * 1000 ^ 1)))
     | _ \<Rightarrow> Inl (InvalidNumber (''1'' @ frac_part ''001'')))"
    by (rule ParseSize_grammar) (simp_all add: char_class_eval ToUpper_GB unit_factor_def)
  then show ?thesis
    by (simp add: frac_part_def n f64_round_1_001 f64_round_1_001_times_1000 f64_to_int64_def
        rat_trunc_def is_int64_def)
qed

text \<open>
  C5, as stated, fails: the product is not the exact one. The decimal number 1.001 times
  the factor 1000 of KB is 1001, but \<open>ParseSize "1.001KB"\<close> is 1000: the float64 nearest to
  1.001 lies below it, and so does its float64 product with 1000.
\<close>

theorem ParseSize_exact_product_counterexample:
  "ParseSize example_platform ''1.001KB'' = Inr 1000 \<and>
   rat_trunc (dec_number ''1'' ''001'' * 1000) = 1001"
  by (simp add: ParseSize_1_001KB dec_number_def dec_val_def rat_trunc_def)

text \<open>
  C5, amended. \<open>ParseSize\<close> reads a decimal number, optional white space and a unit in
  either letter case. It rounds the number to the nearest float64, multiplies it in float64
  by the unit's factor (KB, MB, GB, TB: powers of 1000; KiB, MiB, GiB, TiB and the bare K,
  M, G, T: powers of 1024; no unit or B: 1) and truncates the product towards zero. In
  particular \<open>ParseSize "1.5GiB" = 1610612736\<close> and \<open>ParseSize "200GB" = 200000000000\<close>.
\<close>

theorem ParseSize_float_product:
  assumes "ds \<noteq> []" "\<forall>c\<in>set ds. isDigit c" "\<forall>c\<in>set fs. isDigit c"
    and "\<forall>c\<in>set ws. isReSpace c" "\<forall>c\<in>set u. isLetter c" "u \<noteq> [] \<or> ws = []"
    and "unit_factor (ToUpper u) = Some f"
    and "f64_round (dec_number ds fs) = Fin num"
    and "f64_round (num * f) = Fin y" "is_int64 (rat_trunc y)"
  shows "ParseSize pl (ds @ frac_part fs @ ws @ u) = Inr (rat_trunc y) \<and>
    ParseSize pl ''1.5GiB'' = Inr 1610612736 \<and>
    ParseSize pl ''200GB'' = Inr 200000000000"
proof -
  have "ParseSize pl (ds @ frac_part fs @ ws @ u) =
    (case f64_round (dec_number ds fs) of
       Fin num \<Rightarrow> Inr (f64_to_int64 (convOutOfRange pl) (f64_round (num * f)))
     | _ \<Rightarrow> Inl (InvalidNumber (ds @ frac_part fs)))"
    using assms(1-7) by (rule ParseSize_grammar)
  then have "ParseSize pl (ds @ frac_part fs @ ws @ u) = Inr (rat_trunc y)"
    using assms(8-10) by (simp add: f64_to_int64_def)
  then show ?thesis
    using ParseSize_1_5GiB ParseSize_200GB by simp
qed

theorem ParseSize_float_product_witness:
  "ParseSize example_platform ''2.5 gb'' = Inr 2500000000 \<and>
   unit_factor (ToUpper ''gb'') = Some (1000 ^ 3) \<and>
   f64_round (dec_number ''2'' ''5'') = Fin (5 / 2) \<and>
   f64_round (5 / 2 * 1000 ^ 3) = Fin 2500000000 \<and>
   is_int64 (rat_trunc 2500000000)"
proof -
  have n: "dec_number ''2'' ''5'' = 5 / 2"
    by (simp add: dec_number_def dec_val_def)
  have r1: "f64_round (dec_number ''2'' ''5'') = Fin (5 / 2)"
    unfolding n using f64_round_dyadic [of 5 1] by simp
  have r2: "f64_round (5 / 2 * 1000 ^ 3) = Fin 2500000000"
    using f64_round_of_int [of 2500000000] by simp
  have u: "unit_factor (ToUpper ''gb'') = Some (1000 ^ 3)"
    by (simp add: ToUpper_GB unit_factor_def)
  have i: "is_int64 (rat_trunc 2500000000)"
    by (simp add: rat_trunc_def is_int64_def)
  have "ParseSize example_platform (''2'' @ frac_part ''5'' @ '' '' @ ''gb'') =
      Inr (rat_trunc 2500000000) \<and>
    ParseSize example_platform ''1.5GiB'' = Inr 1610612736 \<and>
    ParseSize example_platform ''200GB'' = Inr 200000000000"
    by (rule ParseSize_float_product [OF _ _ _ _ _ _ u r1 r2 i]) (simp_all add: char_class_eval)
  then have "ParseSize example_platform ''2.5 gb'' = Inr 2500000000"
    by (simp add: frac_part_def rat_trunc_def)
  with u r1 r2 i show ?thesis
    by simp
qed

lemma space_runes_not_printable: "w \<in> set space_runes \<Longrightarrow> w \<noteq> [] \<and> \<not> printable (hd w)"
  by (auto simp: space_runes_def printable_nat)

lemma TrimRightSpace_keeps_head:
  "printable c \<Longrightarrow> \<exists>r'. TrimRightSpace (c # r) = c # r'"
proof (induction "c # r" arbitrary: r rule: TrimRightSpace.induct)
  case 1
  show ?case
  proof (cases "find (HasSuffix (c # r)) space_runes")
    case None
    then show ?thesis
      by (subst TrimRightSpace.simps) simp
  next
    case (Some w)
    then have w: "w \<in> set space_runes" "HasSuffix (c # r) w"
      by (auto simp: find_Some_iff)
    then have ne: "w \<noteq> []" and np: "\<not> printable (hd w)"
      using space_runes_not_printable by blast+
    have "length w \<noteq> length (c # r)"
    proof
      assume "length w = length (c # r)"
      with w(2) have "w = c # r"
        by (simp add: HasSuffix_def)
      with np "1.prems" show False
        by simp
    qed
    with w(2) have "length w \<le> length r"
      by (simp add: HasSuffix_def)
    then have t: "take (length (c # r) - length w) (c # r) = c # take (length r - length w) r"
      by (simp add: Suc_diff_le)
    have "\<exists>r'. TrimRightSpace (c # take (length r - length w) r) = c # r'"
      using "1.hyps" [OF Some ne t] "1.prems" by simp
    moreover have "TrimRightSpace (c # r) = TrimRightSpace (c # take (length r - length w) r)"
      using Some ne t by (subst TrimRightSpace.simps) simp
    ultimately show ?thesis
      by simp
  qed
qed

lemma ParseSize_minus:
  "ParseSize pl (CHR ''-'' # r) = Inl (InvalidSizeFormat (TrimSpace (CHR ''-'' # r)))"
proof -
  have p: "printable CHR ''-''"
    by (simp add: printable_nat)
  then have "TrimLeftSpace (CHR ''-'' # r) = CHR ''-'' # r"
    by (intro TrimLeftSpace_printable) simp_all
  with TrimRightSpace_keeps_head [OF p, of r] obtain r' where t: "TrimSpace (CHR ''-'' # r) = CHR ''-'' # r'"
    by (auto simp: TrimSpace_def)
  have "\<not> isDigit CHR ''-''"
    by (simp add: isDigit_nat)
  then have "sizeRegexp (CHR ''-'' # r') = None"
    by (simp add: sizeRegexp_def)
  then show ?thesis
    by (simp add: ParseSize_def t)
qed

lemma ParseSize_minus_5MB: "ParseSize pl ''-5MB'' = Inl (InvalidSizeFormat ''-5MB'')"
proof -
  have "TrimSpace ''-5MB'' = ''-5MB''"
    by (rule TrimSpace_printable) (simp_all add: printable_nat)
  with ParseSize_minus [of pl "''5MB''"] show ?thesis
    by simp
qed

lemma isNumberChar_printable: "isNumberChar c \<Longrightarrow> printable c"
  by (auto simp: isNumberChar_def isDigit_nat printable_nat)

lemma ParseSizeSpec_percent:
  assumes "num \<noteq> []" "\<forall>c\<in>set num. isNumberChar c"
  shows "ParseSizeSpec pl (num @ ''%'') =
    (case parse_decimal num of
       None \<Rightarrow> Inl (InvalidPercentage (num @ ''%''))
     | Some pct \<Rightarrow>
         if f64_le pct (Fin 0) \<or> f64_lt (Fin 100) pct
         then Inl (PercentageOutOfRange (num @ ''%''))
         else Inr \<lparr>Bytes = 0, Percent = pct\<rparr>)"
proof -
  have h: "printable (hd num)" "printable (last num)"
    using assms by (simp_all add: isNumberChar_printable)
  have t1: "TrimSpace (num @ ''%'') = num @ ''%''"
    using assms(1) h(1) by (intro TrimSpace_printable) (simp_all add: printable_nat)
  have t2: "TrimSpace num = num"
    using assms(1) h by (rule TrimSpace_printable)
  have sfx: "HasSuffix (num @ ''%'') ''%''" "TrimSuffix (num @ ''%'') ''%'' = num"
    by (simp_all add: HasSuffix_def TrimSuffix_def)
  have "\<not> (isLetter c \<or> c = CHR ''_'')" if "isNumberChar c" for c
    using that by (auto simp: isNumberChar_def isDigit_nat isLetter_nat)
  with assms(2) have "\<not> (\<exists>c\<in>set num. isLetter c \<or> c = CHR ''_'')"
    by blast
  then have pf: "ParseFloat (parseFloatOther pl) num = parse_decimal num"
    by (simp add: ParseFloat_def)
  show ?thesis
    unfolding ParseSizeSpec_def t1 Let_def by (simp add: sfx t2 pf)
qed

lemma parse_decimal_examples:
  "parse_decimal ''0'' = Some (Fin 0)" "parse_decimal ''101'' = Some (Fin 101)"
  "parse_decimal ''80'' = Some (Fin 80)" "parse_decimal ''33.5'' = Some (Fin (67 / 2))"
proof -
  have r: "f64_round_abs 0 = Fin 0" "f64_round_abs 101 = Fin 101" "f64_round_abs 80 = Fin 80"
    "f64_round_abs (67 / 2) = Fin (67 / 2)"
    using f64_round_abs_repr [OF _ f64_repr_of_int [of 0]]
      f64_round_abs_repr [OF _ f64_repr_of_int [of 101]]
      f64_round_abs_repr [OF _ f64_repr_of_int [of 80]]
      f64_round_abs_repr [OF _ f64_repr_dyadic [of 67 1]]
    by simp_all
  have "parse_decimal (''0'' @ frac_part []) = Some (Fin 0)"
    by (subst parse_decimal_unsigned) (simp_all add: char_class_eval dec_number_def dec_val_def r)
  moreover have "parse_decimal (''101'' @ frac_part []) = Some (Fin 101)"
    by (subst parse_decimal_unsigned) (simp_all add: char_class_eval dec_number_def dec_val_def r)
  moreover have "parse_decimal (''80'' @ frac_part []) = Some (Fin 80)"
    by (subst parse_decimal_unsigned) (simp_all add: char_class_eval dec_number_def dec_val_def r)
  moreover have "parse_decimal (''33'' @ frac_part ''5'') = Some (Fin (67 / 2))"
    by (subst parse_decimal_unsigned) (simp_all add: char_class_eval dec_number_def dec_val_def r)
  ultimately show "parse_decimal ''0'' = Some (Fin 0)" "parse_decimal ''101'' = Some (Fin 101)"
    "parse_decimal ''80'' = Some (Fin 80)" "parse_decimal ''33.5'' = Some (Fin (67 / 2))"
    by (simp_all add: frac_part_def)
qed

lemma ParseSizeSpec_examples:
  "ParseSizeSpec pl ''0%'' = Inl (PercentageOutOfRange ''0%'')"
  "ParseSizeSpec pl ''101%'' = Inl (PercentageOutOfRange ''101%'')"
  "ParseSizeSpec pl ''80%'' = Inr \<lparr>Bytes = 0, Percent = Fin 80\<rparr>"
  using ParseSizeSpec_percent [of "''0''" pl] ParseSizeSpec_percent [of "''101''" pl]
    ParseSizeSpec_percent [of "''80''" pl]
  by (simp_all add: isNumberChar_def char_class_eval parse_decimal_examples f64_le_def f64_eq_def)

text \<open>
  C6, as stated, fails: \<open>ParseSize "-5MB"\<close> fails with the invalid-format error, not with a
  range error. The regular expression admits no sign, and the package has no range check
  on sizes.
\<close>

theorem ParseSize_negative_counterexample:
  "ParseSize example_platform ''-5MB'' = Inl (InvalidSizeFormat ''-5MB'')"
  by (rule ParseSize_minus_5MB)

text \<open>
  C6, amended. \<open>ParseSize\<close> of a string that starts with a minus sign (such as \<open>"-5MB"\<close>) fails
  with the invalid-format error. \<open>ParseSizeSpec\<close> of a signed decimal number followed by \<open>%\<close>
  fails with the percentage-range error exactly when the float64 value \<open>p\<close> of the number
  has \<open>p \<le> 0\<close> or \<open>p > 100\<close>, and returns the percentage \<open>p\<close> otherwise: \<open>"0%"\<close> and \<open>"101%"\<close>
  fail so, \<open>"80%"\<close> yields the percentage 80. The errors differ by their message only.
\<close>

theorem parser_range_errors:
  "(\<forall>pl r. ParseSize pl (CHR ''-'' # r) = Inl (InvalidSizeFormat (TrimSpace (CHR ''-'' # r)))) \<and>
   (\<forall>pl. ParseSize pl ''-5MB'' = Inl (InvalidSizeFormat ''-5MB'')) \<and>
   (\<forall>pl num p. num \<noteq> [] \<and> (\<forall>c\<in>set num. isNumberChar c) \<and> parse_decimal num = Some (Fin p) \<longrightarrow>
      ParseSizeSpec pl (num @ ''%'') =
        (if p \<le> 0 \<or> 100 < p then Inl (PercentageOutOfRange (num @ ''%''))
         else Inr \<lparr>Bytes = 0, Percent = Fin p\<rparr>)) \<and>
   (\<forall>pl. ParseSizeSpec pl ''0%'' = Inl (PercentageOutOfRange ''0%'') \<and>
      ParseSizeSpec pl ''101%'' = Inl (PercentageOutOfRange ''101%'') \<and>
      ParseSizeSpec pl ''80%'' = Inr \<lparr>Bytes = 0, Percent = Fin 80\<rparr>)"
proof (intro conjI allI impI)
  fix pl :: platform and num :: string and p :: rat
  assume a: "num \<noteq> [] \<and> (\<forall>c\<in>set num. isNumberChar c) \<and> parse_decimal num = Some (Fin p)"
  then have "ParseSizeSpec pl (num @ ''%'') =
    (case parse_decimal num of
       None \<Rightarrow> Inl (InvalidPercentage (num @ ''%''))
     | Some pct \<Rightarrow>
         if f64_le pct (Fin 0) \<or> f64_lt (Fin 100) pct
         then Inl (PercentageOutOfRange (num @ ''%''))
         else Inr \<lparr>Bytes = 0, Percent = pct\<rparr>)"
    by (intro ParseSizeSpec_percent) simp_all
  with a show "ParseSizeSpec pl (num @ ''%'') =
        (if p \<le> 0 \<or> 100 < p then Inl (PercentageOutOfRange (num @ ''%''))
         else Inr \<lparr>Bytes = 0, Percent = Fin p\<rparr>)"
    by (auto simp: f64_le_def f64_eq_def)
qed (rule ParseSize_minus ParseSize_minus_5MB ParseSizeSpec_examples)+

theorem parser_range_errors_witness:
  "''33.5'' \<noteq> [] \<and> list_all isNumberChar ''33.5'' \<and>
   parse_decimal ''33.5'' = Some (Fin (67 / 2)) \<and>
   ParseSizeSpec example_platform ''33.5%'' = Inr \<lparr>Bytes = 0, Percent = Fin (67 / 2)\<rparr>"
proof -
  have a: "''33.5'' \<noteq> [] \<and> (\<forall>c\<in>set ''33.5''. isNumberChar c) \<and>
      parse_decimal ''33.5'' = Some (Fin (67 / 2))"
    by (simp add: isNumberChar_def char_class_eval parse_decimal_examples)
  from parser_range_errors have "\<forall>pl num p.
      num \<noteq> [] \<and> (\<forall>c\<in>set num. isNumberChar c) \<and> parse_decimal num = Some (Fin p) \<longrightarrow>
      ParseSizeSpec pl (num @ ''%'') =
        (if p \<le> 0 \<or> 100 < p then Inl (PercentageOutOfRange (num @ ''%''))
         else Inr \<lparr>Bytes = 0, Percent = Fin p\<rparr>)"
    by blast
  with a have "ParseSizeSpec example_platform (''33.5'' @ ''%'') =
        (if (67 / 2 :: rat) \<le> 0 \<or> 100 < (67 / 2 :: rat)
         then Inl (PercentageOutOfRange (''33.5'' @ ''%''))
         else Inr \<lparr>Bytes = 0, Percent = Fin (67 / 2)\<rparr>)"
    by blast
  with a show ?thesis
    by (simp add: list_all_iff)
qed

subsection \<open>Formatting and parsing again\<close>

lemma ParseSize_grammar_cases:
  assumes ds: "ds \<noteq> []" "\<forall>c\<in>set ds. isDigit c"
    and fs: "\<forall>c\<in>set fs. isDigit c"
    and ws: "\<forall>c\<in>set ws. isReSpace c"
    and u: "\<forall>c\<in>set u. isLetter c"
    and trimmed: "u \<noteq> [] \<or> ws = []"
  shows "ParseSize pl (ds @ frac_part fs @ ws @ u) =
    (case f64_round (dec_number ds fs) of
       Fin num \<Rightarrow>
         (case unit_factor (ToUpper u) of
            None \<Rightarrow> Inl (UnknownUnit (ToUpper u))
          | Some f \<Rightarrow> Inr (f64_to_int64 (convOutOfRange pl) (f64_round (num * f))))
     | _ \<Rightarrow> Inl (InvalidNumber (ds @ frac_part fs)))"
proof -
  define s where "s = ds @ frac_part fs @ ws @ u"
  have ne: "s \<noteq> []"
    using ds(1) by (simp add: s_def)
  have "hd s = hd ds"
    using ds(1) by (simp add: s_def)
  with ds have h: "printable (hd s)"
    by (simp add: isDigit_printable)
  have l: "printable (last s)"
  proof (cases "u = []")
    case False
    then have "last s = last u"
      by (simp add: s_def)
    with False u show ?thesis
      by (simp add: isLetter_printable)
  next
    case True
    with trimmed have w: "ws = []"
      by simp
    show ?thesis
    proof (cases "fs = []")
      case True
      with \<open>u = []\<close> w ds show ?thesis
        by (simp add: s_def frac_part_def isDigit_printable)
    next
      case False
      with \<open>u = []\<close> w fs show ?thesis
        by (simp add: s_def frac_part_def isDigit_printable)
    qed
  qed
  have trim: "TrimSpace s = s"
    using ne h l by (rule TrimSpace_printable)
  have re: "sizeRegexp s = Some (ds @ frac_part fs, u)"
    unfolding s_def using ds fs ws u by (rule sizeRegexp_match)
  have pf: "ParseFloat (parseFloatOther pl) (ds @ frac_part fs) =
    (case f64_round_abs (dec_number ds fs) of Fin q \<Rightarrow> Some (Fin q) | _ \<Rightarrow> None)"
    using ds fs by (rule ParseFloat_unsigned)
  have r: "f64_round (dec_number ds fs) = f64_round_abs (dec_number ds fs)"
    by (rule f64_round_nonneg) (rule dec_number_nonneg)
  show ?thesis
    unfolding s_def [symmetric] ParseSize_def trim Let_def re
    using ne by (simp add: pf r unit_multiplier_factor split: float64.splits option.splits)
qed

lemma digit_char_digit: "k < 10 \<Longrightarrow> isDigit (digit_char k) \<and> digit_val (digit_char k) = k"
proof -
  assume "k < 10"
  then have "k \<in> {0, 1, 2, 3, 4, 5, 6, 7, 8, 9}"
    by auto
  then show ?thesis
    by (auto simp: char_class_eval)
qed

lemma dec_val_snoc: "dec_val (ds @ [c]) = 10 * dec_val ds + digit_val c"
  by (simp add: dec_val_def)

lemma decimal_props:
  "decimal n \<noteq> [] \<and> (\<forall>c\<in>set (decimal n). isDigit c) \<and> dec_val (decimal n) = n"
proof (induction n rule: decimal.induct)
  case (1 n)
  show ?case
  proof (cases "n < 10")
    case True
    then have "decimal n = [digit_char n]"
      by (subst decimal.simps) simp
    with True digit_char_digit [of n] show ?thesis
      by (simp add: dec_val_def)
  next
    case False
    then have d: "decimal n = decimal (n div 10) @ [digit_char (n mod 10)]"
      by (subst decimal.simps) simp
    have "n mod 10 < 10"
      by simp
    with "1.IH" [OF False] digit_char_digit [of "n mod 10"] show ?thesis
      unfolding d by (simp add: dec_val_snoc)
  qed
qed

lemma f64_repr_scale:
  assumes "f64_repr y" "\<bar>y\<bar> * 2 ^ j < 2 powi 1024"
  shows "f64_repr (y * 2 ^ j)"
proof -
  from assms(1) obtain m e where r: "y = of_int m * 2 powi e" "\<bar>m\<bar> < 2 ^ 53"
    "- 1074 \<le> e" "e \<le> 971"
    unfolding f64_repr_def by blast
  have yj: "y * 2 ^ j = of_int m * 2 powi (e + int j)"
    unfolding r(1) by (simp add: p2_add)
  show ?thesis
  proof (cases "e + int j \<le> 971")
    case True
    show ?thesis
      unfolding f64_repr_def
    proof (intro exI conjI)
      show "y * 2 ^ j = of_int m * 2 powi (e + int j)"
        by (rule yj)
      show "\<bar>m\<bar> < 2 ^ 53"
        by (rule r(2))
      show "- 1074 \<le> e + int j"
        using r(3) by simp
      show "e + int j \<le> 971"
        by (rule True)
    qed
  next
    case False
    define k where "k = nat (e + int j - 971)"
    have k: "e + int j = 971 + int k"
      using False by (simp add: k_def)
    have eq: "y * 2 ^ j = of_int (m * 2 ^ k) * 2 powi 971"
      unfolding yj k by (simp add: p2_add)
    have "\<bar>y * 2 ^ j\<bar> < 2 powi 1024"
      using assms(2) by (simp add: abs_mult)
    then have "\<bar>of_int (m * 2 ^ k) :: rat\<bar> * 2 powi 971 < 2 ^ 53 * 2 powi 971"
      unfolding eq by (simp add: abs_mult)
    then have "\<bar>of_int (m * 2 ^ k) :: rat\<bar> < 2 ^ 53"
      by (simp only: mult_less_cancel_right_pos p2_pos)
    then have "(of_int \<bar>m * 2 ^ k\<bar> :: rat) < of_int (2 ^ 53)"
      by simp
    then have b: "\<bar>m * 2 ^ k\<bar> < 2 ^ 53"
      by (simp only: of_int_less_iff)
    show ?thesis
      unfolding f64_repr_def
    proof (intro exI conjI)
      show "y * 2 ^ j = of_int (m * 2 ^ k) * 2 powi 971"
        by (rule eq)
      show "\<bar>m * 2 ^ k\<bar> < 2 ^ 53"
        by (rule b)
    qed simp_all
  qed
qed

lemma unit_letter:
  assumes "e < 4"
  shows "(\<forall>c\<in>set ([''KMGTPE'' ! e] @ ''iB''). isLetter c) \<and>
    unit_factor (ToUpper ([''KMGTPE'' ! e] @ ''iB'')) = Some (1024 ^ (e + 1))"
proof -
  from assms have "e \<in> {0, 1, 2, 3}"
    by auto
  then show ?thesis
    by (auto simp: char_class_eval toUpper_eval unit_factor_def)
qed

lemma f64_round_abs_near_one:
  assumes "1 \<le> q" "q \<le> 1024"
  obtains v where "f64_round q = Fin v" "1 \<le> v" "v \<le> 1024" "f64_repr v" "\<bar>v - q\<bar> \<le> 1 / 2 ^ 43"
proof -
  have q0: "0 \<le> q"
    using assms(1) by simp
  have r1024: "f64_repr 1024"
    using f64_repr_of_int [of 1024] by simp
  have r1: "f64_repr 1"
    using f64_repr_of_int [of 1] by simp
  from q0 assms(2) r1024 obtain v where v: "f64_round_abs q = Fin v" "0 \<le> v" "v \<le> 1024"
    by (rule f64_round_abs_le_repr)
  have lo: "1 \<le> v"
    using _ assms(1) r1 v(1) by (rule f64_round_abs_ge_repr) simp
  have rv: "f64_repr v"
    using q0 v(1) by (rule f64_round_abs_is_repr)
  have "(2::rat) powi (- 1022) \<le> 2 powi 0"
    by (rule p2_mono) simp
  with assms(1) have "2 powi (- 1022) \<le> q"
    by simp
  then have "\<bar>v - q\<bar> \<le> q / 2 ^ 53"
    using v(1) by (rule f64_round_abs_error)
  also have "\<dots> \<le> 1024 / 2 ^ 53"
    using assms(2) by (intro divide_right_mono) simp_all
  also have "\<dots> = 1 / 2 ^ 43"
    by simp
  finally have err: "\<bar>v - q\<bar> \<le> 1 / 2 ^ 43" .
  from v(1) q0 have "f64_round q = Fin v"
    by (simp add: f64_round_nonneg)
  then show ?thesis
    using lo v(3) rv err by (rule that)
qed

lemma roundtrip_bound:
  fixes D N v q x :: rat and m n d r :: int
  assumes D: "D = of_int d" "1024 \<le> d" and N: "N = of_int n" "N = x * D"
    and r: "\<bar>of_int r - x * 10\<bar> \<le> 1 / 2" "10 \<le> r" and x1: "1 \<le> x"
    and q: "q = of_int r / 10"
    and v: "\<bar>v - q\<bar> \<le> 1 / 2 ^ 43" "r = 10 \<Longrightarrow> v = 1"
    and m: "m = \<lfloor>v * D\<rfloor>"
  shows "20 * \<bar>m - n\<bar> \<le> n"
proof -
  have Dpos: "1024 \<le> D"
    unfolding D(1) using D(2) by (metis of_int_le_iff of_int_numeral)
  have fl: "of_int m \<le> v * D" "v * D < of_int m + 1"
    unfolding m by linarith+
  have "20 * \<bar>of_int m - N\<bar> \<le> N"
  proof (cases "r = 10")
    case True
    then have "v = 1"
      by (rule v(2))
    with m D(1) have "m = d"
      by simp
    then have md: "of_int m = D"
      by (simp add: D(1))
    from r(1) True have "\<bar>10 - x * 10\<bar> \<le> 1 / 2"
      by simp
    then have "x \<le> 21 / 20"
      by linarith
    then have "x * D \<le> 21 / 20 * D"
      using Dpos by (intro mult_right_mono) simp_all
    moreover have "1 * D \<le> x * D"
      using x1 Dpos by (intro mult_right_mono) simp_all
    ultimately show ?thesis
      unfolding md N(2) using Dpos by (simp add: abs_le_iff)
  next
    case False
    with r(2) have "11 \<le> r"
      by simp
    then have "(11::rat) \<le> of_int r"
      by (metis of_int_le_iff of_int_numeral)
    with r(1) have "21 / 20 \<le> x"
      by linarith
    then have big: "21 / 20 * D \<le> N"
      unfolding N(2) using Dpos by (intro mult_right_mono) simp_all
    define p1 where "p1 = (v - q) * D"
    define p2 where "p2 = (q - x) * D"
    have sum: "v * D - N = p1 + p2"
      unfolding p1_def p2_def N(2) by (simp add: algebra_simps)
    have "\<bar>p1\<bar> = \<bar>v - q\<bar> * D"
      unfolding p1_def using Dpos by (simp add: abs_mult)
    also have "\<dots> \<le> 1 / 2 ^ 43 * D"
      using v(1) Dpos by (intro mult_right_mono) simp_all
    finally have b1: "\<bar>p1\<bar> \<le> D / 2 ^ 43"
      by simp
    have "\<bar>q - x\<bar> = \<bar>of_int r - x * 10\<bar> / 10"
      unfolding q by (simp add: field_simps abs_divide)
    also have "\<dots> \<le> 1 / 2 / 10"
      using r(1) by (intro divide_right_mono) simp_all
    finally have "\<bar>q - x\<bar> \<le> 1 / 20"
      by simp
    moreover have "\<bar>p2\<bar> = \<bar>q - x\<bar> * D"
      unfolding p2_def using Dpos by (simp add: abs_mult)
    ultimately have "\<bar>p2\<bar> \<le> 1 / 20 * D"
      using Dpos by (simp add: mult_right_mono)
    then have b2: "\<bar>p2\<bar> \<le> D / 20"
      by simp
    from b1 have b1': "\<bar>p1\<bar> \<le> D / 8796093022208"
      by simp
    define B where "B = D / 8796093022208 + D / 20"
    have a1: "of_int m - N \<le> B"
      unfolding B_def using fl(1) sum b1' b2 by linarith
    have a2: "N - of_int m \<le> B + 1"
      unfolding B_def using fl(2) sum b1' b2 by linarith
    have c: "20 * (B + 1) \<le> N"
      unfolding B_def using big Dpos by (simp add: field_simps)
    have "\<bar>of_int m - N\<bar> \<le> B + 1"
      using a1 a2 by (simp add: abs_le_iff)
    then have "20 * \<bar>of_int m - N\<bar> \<le> 20 * (B + 1)"
      by (intro mult_left_mono) simp_all
    then show ?thesis
      using c by (rule order_trans)
  qed
  then have "(of_int (20 * \<bar>m - n\<bar>) :: rat) \<le> of_int n"
    unfolding N(1) by simp
  then show ?thesis
    by (simp only: of_int_le_iff)
qed

lemma pow1024_pow2: "(1024::rat) ^ k = 2 ^ (10 * k)"
  by (simp add: power_mult)


lemma FormatSize_1PiB: "FormatSize (2 ^ 50) = Some ''1.0 PiB''"
proof -
  have "f64_div (f64_of_int 1125899906842624) (f64_of_int 1125899906842624) = Fin 1"
    using f64_of_int_exact [of 1125899906842624] f64_round_of_int [of 1] by simp
  then show ?thesis
    by (simp add: FormatSize_def tdiv_def FormatSize_loop.simps wrap64_def fmt_f1_abs_def
        decimal.simps)
qed

lemma ParseSize_1PiB: "ParseSize pl ''1.0 PiB'' = Inl (UnknownUnit ''PIB'')"
proof -
  have n: "dec_number ''1'' ''0'' = 1"
    by (simp add: dec_number_def dec_val_def)
  have r1: "f64_round 1 = Fin 1"
    using f64_round_of_int [of 1] by simp
  have "ParseSize pl (''1'' @ frac_part ''0'' @ '' '' @ ''PiB'') =
    (case f64_round (dec_number ''1'' ''0'') of
       Fin num \<Rightarrow>
         (case unit_factor (ToUpper ''PiB'') of
            None \<Rightarrow> Inl (UnknownUnit (ToUpper ''PiB''))
          | Some f \<Rightarrow> Inr (f64_to_int64 (convOutOfRange pl) (f64_round (num * f))))
     | _ \<Rightarrow> Inl (InvalidNumber (''1'' @ frac_part ''0'')))"
    by (rule ParseSize_grammar_cases) (simp_all add: char_class_eval)
  moreover have "ToUpper ''PiB'' = ''PIB''"
    by (simp add: toUpper_eval)
  ultimately show ?thesis
    by (simp add: frac_part_def n r1 unit_factor_def)
qed

text \<open>
  C8, as stated, fails from \<open>2^50\<close> on: the formatter writes the units PiB and EiB, which
  the parser's table does not hold.
\<close>

theorem format_parse_roundtrip_counterexample:
  "FormatSize (2 ^ 50) = Some ''1.0 PiB'' \<and>
   ParseSize example_platform ''1.0 PiB'' = Inl (UnknownUnit ''PIB'')"
  using FormatSize_1PiB ParseSize_1PiB by simp

text \<open>
  C8, amended. For every byte value \<open>n\<close> with \<open>1024 \<le> n < 2^50\<close>, \<open>FormatSize n\<close> is a string that
  \<open>ParseSize\<close> accepts, and the parsed value is within 5% of \<open>n\<close>.
\<close>

theorem format_parse_roundtrip:
  assumes n: "1024 \<le> n" "n < 2 ^ 50"
  shows "\<exists>s m. FormatSize n = Some s \<and> ParseSize pl s = Inr m \<and> 20 * \<bar>m - n\<bar> \<le> n"
proof -
  from n have "n < 2 ^ 63"
    by simp
  with n(1) obtain e where e: "e < 6" "1024 ^ (e + 1) \<le> n" "n < 1024 ^ (e + 2)"
    and fmt: "FormatSize n = Some (fmt_f1 (f64_div (f64_of_int n) (f64_of_int (1024 ^ (e + 1)))) @
        '' '' @ [''KMGTPE'' ! e] @ ''iB'')"
    by (rule FormatSize_large)
  have e4: "e < 4"
  proof (rule ccontr)
    assume "\<not> e < 4"
    then have "5 \<le> e + 1"
      by simp
    then have "(1024::int) ^ 5 \<le> 1024 ^ (e + 1)"
      by (intro power_increasing) simp_all
    with e(2) n(2) show False
      by simp
  qed
  define d :: int where "d = 1024 ^ (e + 1)"
  define D :: rat where "D = of_int d"
  define N :: rat where "N = of_int n"
  define x :: rat where "x = N / D"
  have d_lo: "1024 \<le> d"
  proof -
    have "(1024::int) ^ 1 \<le> 1024 ^ (e + 1)"
      by (intro power_increasing) simp_all
    then show ?thesis
      by (simp add: d_def)
  qed
  have d_hi: "d \<le> 2 ^ 40"
  proof -
    have "(1024::int) ^ (e + 1) \<le> 1024 ^ 4"
      using e4 by (intro power_increasing) simp_all
    then show ?thesis
      by (simp add: d_def)
  qed
  have D1024: "(1024::rat) ^ (e + 1) = D"
    by (simp add: D_def d_def)
  have D_pow: "D = 2 ^ (10 * (e + 1))"
    unfolding D1024 [symmetric] by (rule pow1024_pow2)
  have D_lo: "1024 \<le> D"
    unfolding D_def using d_lo by (metis of_int_le_iff of_int_numeral)
  have D_hi: "D \<le> 2 ^ 40"
    unfolding D_def using d_hi by (metis of_int_le_iff of_int_numeral of_int_power)
  have N_lo: "D \<le> N"
    unfolding D_def N_def d_def using e(2) by (simp only: of_int_le_iff)
  have "N < of_int (1024 ^ (e + 2))"
    unfolding N_def using e(3) by (simp only: of_int_less_iff)
  then have N_hi: "N < 1024 * D"
    by (simp add: D_def d_def)
  have x1: "1 \<le> x"
    unfolding x_def using N_lo D_lo by (simp add: pos_le_divide_eq)
  have x1024: "x < 1024"
    unfolding x_def using N_hi D_lo by (simp add: pos_divide_less_eq)
  have ND: "N = x * D"
    unfolding x_def using D_lo by simp
  \<comment> \<open>the formatter\<close>
  have fn: "f64_of_int n = Fin N"
    unfolding N_def using n by (intro f64_of_int_exact) simp_all
  have fd: "f64_of_int d = Fin D"
    unfolding D_def using d_lo d_hi by (intro f64_of_int_exact) simp_all
  have "f64_round (of_int n / 2 ^ (10 * (e + 1))) = Fin (of_int n / 2 ^ (10 * (e + 1)))"
    using n e4 by (intro f64_round_dyadic) simp_all
  then have fx: "f64_round x = Fin x"
    by (simp add: x_def N_def D_pow)
  have fdiv: "f64_div (f64_of_int n) (f64_of_int (1024 ^ (e + 1))) = Fin x"
    unfolding d_def [symmetric] fn fd using D_lo fx by (simp add: x_def)
  define r where "r = round_half_even (x * 10)"
  have r_lo: "10 \<le> r"
    unfolding r_def using x1 by (intro rhe_ge_int) simp
  have r_hi: "r \<le> 10240"
    unfolding r_def using x1024 by (intro rhe_le_int) simp
  have r_err: "\<bar>of_int r - x * 10\<bar> \<le> 1 / 2"
    unfolding r_def by (rule rhe_error)
  define a where "a = nat r div 10"
  define b where "b = nat r mod 10"
  have ab: "of_nat a + of_nat b / 10 = (of_int r / 10 :: rat)"
  proof -
    have "nat r = 10 * a + b"
      by (simp add: a_def b_def)
    then have "(of_nat (nat r) :: rat) = of_nat (10 * a + b)"
      by simp
    moreover have "(of_nat (nat r) :: rat) = of_int r"
      using r_lo by simp
    ultimately show ?thesis
      by simp
  qed
  have b10: "b < 10"
    by (simp add: b_def)
  have f1: "fmt_f1 (Fin x) = decimal a @ frac_part [digit_char b]"
    using x1 by (simp add: fmt_f1_abs_def r_def a_def b_def frac_part_def Let_def)
  define u where "u = [''KMGTPE'' ! e] @ ''iB''"
  have s: "FormatSize n = Some (decimal a @ frac_part [digit_char b] @ '' '' @ u)"
    unfolding fmt fdiv f1 u_def by simp
  \<comment> \<open>the parser\<close>
  note dp = decimal_props [of a]
  have dn: "dec_number (decimal a) [digit_char b] = of_int r / 10"
    using dp digit_char_digit [OF b10] ab by (simp add: dec_number_def dec_val_def)
  from unit_letter [OF e4] have ul: "\<forall>c\<in>set u. isLetter c"
    and uf: "unit_factor (ToUpper u) = Some (1024 ^ (e + 1))"
    unfolding u_def by blast+
  have p: "ParseSize pl (decimal a @ frac_part [digit_char b] @ '' '' @ u) =
    (case f64_round (dec_number (decimal a) [digit_char b]) of
       Fin num \<Rightarrow> Inr (f64_to_int64 (convOutOfRange pl) (f64_round (num * 1024 ^ (e + 1))))
     | _ \<Rightarrow> Inl (InvalidNumber (decimal a @ frac_part [digit_char b])))"
  proof (rule ParseSize_grammar)
    show "decimal a \<noteq> []" "\<forall>c\<in>set (decimal a). isDigit c"
      using dp by blast+
    show "\<forall>c\<in>set [digit_char b]. isDigit c"
      using digit_char_digit [OF b10] by simp
    show "\<forall>c\<in>set '' ''. isReSpace c"
      by (simp add: isReSpace_def)
    show "\<forall>c\<in>set u. isLetter c"
      by (rule ul)
    show "u \<noteq> [] \<or> '' '' = []"
      by (simp add: u_def)
    show "unit_factor (ToUpper u) = Some (1024 ^ (e + 1))"
      by (rule uf)
  qed
  define q :: rat where "q = of_int r / 10"
  have q_lo: "1 \<le> q"
  proof -
    have "(10::rat) \<le> of_int r"
      using r_lo by (metis of_int_le_iff of_int_numeral)
    then show ?thesis
      by (simp add: q_def)
  qed
  have q_hi: "q \<le> 1024"
  proof -
    have "of_int r \<le> (10240::rat)"
      using r_hi by (metis of_int_le_iff of_int_numeral)
    then show ?thesis
      by (simp add: q_def)
  qed
  from q_lo q_hi obtain v where v: "f64_round q = Fin v" "1 \<le> v" "v \<le> 1024" "f64_repr v"
    "\<bar>v - q\<bar> \<le> 1 / 2 ^ 43"
    by (rule f64_round_abs_near_one)
  have v1: "v = 1" if "r = 10"
  proof -
    from that have "q = 1"
      by (simp add: q_def)
    moreover have "f64_round 1 = Fin 1"
      using f64_round_of_int [of 1] by simp
    ultimately show ?thesis
      using v(1) by simp
  qed
  have vD_hi: "v * D \<le> 2 ^ 50"
  proof -
    have "v * D \<le> 1024 * 2 ^ 40"
      using v(2,3) D_lo D_hi by (intro mult_mono) simp_all
    then show ?thesis
      by simp
  qed
  have vD_lo: "0 \<le> v * D"
    using v(2) D_lo by simp
  have "f64_repr (v * 2 ^ (10 * (e + 1)))"
  proof (rule f64_repr_scale [OF v(4)])
    have "\<bar>v\<bar> * 2 ^ (10 * (e + 1)) = v * D"
      using v(2) by (simp add: D_pow)
    also have "\<dots> \<le> 2 powi 50"
      using vD_hi by simp
    also have "\<dots> < (2::rat) powi 1024"
      by (rule p2_strict_mono) simp
    finally show "\<bar>v\<bar> * 2 ^ (10 * (e + 1)) < 2 powi 1024" .
  qed
  then have "f64_repr (v * D)"
    by (simp add: D_pow)
  with vD_lo have rvD: "f64_round (v * D) = Fin (v * D)"
    by (rule f64_round_repr)
  define m where "m = \<lfloor>v * D\<rfloor>"
  have m_lo: "0 \<le> m"
    unfolding m_def using vD_lo by simp
  have m_hi: "m \<le> 2 ^ 50"
  proof -
    have "v * D \<le> of_int (2 ^ 50)"
      using vD_hi by simp
    then show ?thesis
      unfolding m_def by (simp only: floor_le_iff)
  qed
  have tr: "rat_trunc (v * D) = m"
    using vD_lo by (simp add: rat_trunc_def m_def)
  have i64: "is_int64 m"
    using m_lo m_hi by (simp add: is_int64_def)
  have parsed: "ParseSize pl (decimal a @ frac_part [digit_char b] @ '' '' @ u) = Inr m"
    unfolding p dn q_def [symmetric] v(1) D1024
    by (simp add: rvD f64_to_int64_def tr i64)
  have "20 * \<bar>m - n\<bar> \<le> n"
    using D_def d_lo N_def ND r_err r_lo x1 q_def v(5) v1 m_def by (rule roundtrip_bound)
  with s parsed show ?thesis
    by blast
qed

theorem format_parse_roundtrip_witness:
  "(1024::int) \<le> 1536 \<and> (1536::int) < 2 ^ 50 \<and>
   (\<exists>s m. FormatSize 1536 = Some s \<and> ParseSize example_platform s = Inr m \<and>
      20 * \<bar>m - 1536\<bar> \<le> 1536)"
  using format_parse_roundtrip [of 1536 example_platform] by simp

section \<open>The cache manager\<close>

subsection \<open>The budget\<close>

lemma wrap64_range: "is_int64 (wrap64 n)"
proof -
  have "0 \<le> (n + 2 ^ 63) mod (2 ^ 64 :: int)" "(n + 2 ^ 63) mod (2 ^ 64 :: int) < 2 ^ 64"
    by simp_all
  moreover have "(2 :: int) ^ 64 = 2 * 2 ^ 63"
    by simp
  ultimately show ?thesis
    unfolding is_int64_def wrap64_def by linarith
qed

lemma f64_to_int64_range: "is_int64 (f64_to_int64 oor x)"
  by (cases x) (simp_all add: f64_to_int64_def wrap64_range)

text \<open>
  The last two steps of \<open>getMaxSize\<close> leave the reserve, whatever the share \<open>T\<close> computed
  before them, when the available bytes are not negative.
\<close>

lemma reserve_bound:
  assumes A: "0 \<le> A" "is_int64 A" and T: "is_int64 T"
  defines "t \<equiv> (if wrap64 (A - T) < MinFreeSpace then wrap64 (A - MinFreeSpace) else T)"
  shows "min MinFreeSpace A \<le> A - (if t < 0 then 0 else t)"
proof -
  have R: "wrap64 (A - MinFreeSpace) = A - MinFreeSpace"
    using A by (intro wrap64_id) (simp add: is_int64_def MinFreeSpace_def)
  show ?thesis
  proof (cases "wrap64 (A - T) < MinFreeSpace")
    case True
    then show ?thesis
      by (simp add: t_def R)
  next
    case False
    show ?thesis
    proof (cases "0 < T")
      case True
      then have "wrap64 (A - T) = A - T"
        using A T by (intro wrap64_id) (simp add: is_int64_def)
      then show ?thesis
        using False True by (simp add: t_def)
    next
      case F: False
      have "t = T"
        using False by (simp add: t_def)
      then have "(if t < 0 then 0 else t) = 0"
        using F by simp
      then show ?thesis
        using A by simp
    qed
  qed
qed

text \<open>
  Claim C1, as the spec has it, fails: for an absolute byte count \<open>getMaxSize\<close> returns the
  configured count and never applies the reserve. With 5 GiB configured and 2 GiB
  available (\<open>2^19\<close> blocks of 4096 bytes) the budget is 5 GiB, and \<open>A - B\<close> is negative.
\<close>

theorem getMaxSize_absolute_counterexample:
  "getMaxSize example_platform
      \<lparr>root = ''/m'', maxSize = \<lparr>Bytes = 5 * 2 ^ 30, Percent = Fin 0\<rparr>,
       accessTimeMap = Map.empty\<rparr>
      \<lparr>tree = DirNode 0 [], denied = [], statfs = Some (2 ^ 19, 4096)\<rparr> = 5 * 2 ^ 30
   \<and> availableBytes (2 ^ 19) 4096 = 2 * 2 ^ 30
   \<and> \<not> min MinFreeSpace (2 * 2 ^ 30) \<le> 2 * 2 ^ 30 - 5 * 2 ^ 30"
  by (simp add: getMaxSize_def IsZero_def IsPercent_def f64_eq_def availableBytes_def
      wrap64_def MinFreeSpace_def)

text \<open>
  Claim C1, amended: when the statfs call succeeds and the available bytes \<open>A\<close> it gives
  are not negative, the budget \<open>B\<close> of a percent or unset configuration satisfies
  \<open>A - B \<ge> min(R, A)\<close>, with \<open>R = 2^30\<close> the reserve; the budget of an absolute
  configuration is the configured byte count, with no reserve applied.
\<close>

theorem getMaxSize_reserve:
  assumes "statfs w = Some (bavail, bsize)"
    and "0 \<le> availableBytes bavail bsize"
  shows "if IsPercent (maxSize c) \<or> IsZero (maxSize c)
         then min MinFreeSpace (availableBytes bavail bsize)
                \<le> availableBytes bavail bsize - getMaxSize pl c w
         else getMaxSize pl c w = Bytes (maxSize c)"
proof (cases "IsPercent (maxSize c) \<or> IsZero (maxSize c)")
  case False
  then show ?thesis
    by (simp add: getMaxSize_def assms(1))
next
  case True
  define A where "A = availableBytes bavail bsize"
  define T where "T = f64_to_int64 (convOutOfRange pl)
    (f64_div (f64_mul (f64_of_int A)
       (if IsZero (maxSize c) then DefaultMaxSizePercent else Percent (maxSize c))) (Fin 100))"
  have A: "0 \<le> A" "is_int64 A"
    using assms(2) by (simp_all add: A_def availableBytes_def wrap64_range)
  have T: "is_int64 T"
    unfolding T_def by (rule f64_to_int64_range)
  have "getMaxSize pl c w =
      (let t = (if wrap64 (A - T) < MinFreeSpace then wrap64 (A - MinFreeSpace) else T)
       in if t < 0 then 0 else t)"
    using True by (auto simp: getMaxSize_def assms(1) Let_def T_def A_def)
  moreover have "min MinFreeSpace A \<le> A -
      (let t = (if wrap64 (A - T) < MinFreeSpace then wrap64 (A - MinFreeSpace) else T)
       in if t < 0 then 0 else t)"
    unfolding Let_def by (rule reserve_bound [OF A T])
  ultimately have "min MinFreeSpace A \<le> A - getMaxSize pl c w"
    by simp
  then show ?thesis
    using True unfolding A_def by simp
qed

theorem getMaxSize_reserve_witness:
  "min MinFreeSpace (availableBytes (2 ^ 19) 4096)
     \<le> availableBytes (2 ^ 19) 4096
        - getMaxSize example_platform
            \<lparr>root = ''/m'', maxSize = \<lparr>Bytes = 0, Percent = Fin 80\<rparr>,
             accessTimeMap = Map.empty\<rparr>
            \<lparr>tree = DirNode 0 [], denied = [], statfs = Some (2 ^ 19, 4096)\<rparr>"
  using getMaxSize_reserve [of
      "\<lparr>tree = DirNode 0 [], denied = [], statfs = Some (2 ^ 19, 4096)\<rparr>" "2 ^ 19" 4096
      "\<lparr>root = ''/m'', maxSize = \<lparr>Bytes = 0, Percent = Fin 80\<rparr>, accessTimeMap = Map.empty\<rparr>"
      example_platform]
  by (simp add: IsPercent_def availableBytes_def wrap64_def)

end
